theory Spec2Isabelle
  imports Complex_Main "HOL-Library.Char_ord" "HOL-Library.List_Lexorder"
begin

section \<open>Strings\<close>

text \<open>
  Python \<^verbatim>\<open>str\<close> values are modelled as \<^typ>\<open>string\<close>, restricted to ASCII text.
  \<^verbatim>\<open>s.startswith(p)\<close>, \<^verbatim>\<open>s.endswith(e)\<close> and \<^verbatim>\<open>s.lower()\<close> on such text:
\<close>

definition startswith :: "string \<Rightarrow> string \<Rightarrow> bool" where
  "startswith s p = (take (length p) s = p)"

definition endswith :: "string \<Rightarrow> string \<Rightarrow> bool" where
  "endswith s e = (length e \<le> length s \<and> drop (length s - length e) s = e)"

definition ascii_uppercase :: string where
  "ascii_uppercase = ''ABCDEFGHIJKLMNOPQRSTUVWXYZ''"

definition ascii_lowercase :: string where
  "ascii_lowercase = ''abcdefghijklmnopqrstuvwxyz''"

definition lower_char :: "char \<Rightarrow> char" where
  "lower_char c = (case map_of (zip ascii_uppercase ascii_lowercase) c of
                     Some l \<Rightarrow> l | None \<Rightarrow> c)"

definition lower :: "string \<Rightarrow> string" where
  "lower s = map lower_char s"

section \<open>The library's URL parser\<close>

text \<open>
  \<^verbatim>\<open>urllib.parse.urlparse\<close> and \<^verbatim>\<open>ParseResult.geturl\<close> belong to the Python standard
  library, not to the repository. They are transcribed here from the library's
  \<^verbatim>\<open>urlsplit\<close>, \<^verbatim>\<open>_splitnetloc\<close>, \<^verbatim>\<open>_splitparams\<close>, \<^verbatim>\<open>urlunsplit\<close> and \<^verbatim>\<open>urlunparse\<close>
  for ASCII input. The library raises \<^verbatim>\<open>ValueError\<close> for some authorities and for
  nothing else (see \<open>urlparse_may_raise\<close> below); \<open>urlparse\<close> is the value the library
  returns when it returns.
\<close>

record parse_result =
  scheme :: string
  netloc :: string
  path :: string
  params :: string
  query :: string
  fragment :: string

definition scheme_chars :: string where
  "scheme_chars = ''abcdefghijklmnopqrstuvwxyzABCDEFGHIJKLMNOPQRSTUVWXYZ0123456789+-.''"

definition uses_netloc :: "string list" where
  "uses_netloc = ['''', ''ftp'', ''http'', ''gopher'', ''nntp'', ''telnet'',
     ''imap'', ''wais'', ''file'', ''mms'', ''https'', ''shttp'',
     ''snews'', ''prospero'', ''rtsp'', ''rtsps'', ''rtspu'', ''rsync'',
     ''svn'', ''svn+ssh'', ''sftp'', ''nfs'', ''git'', ''git+ssh'',
     ''ws'', ''wss'', ''itms-services'']"

definition uses_params :: "string list" where
  "uses_params = ['''', ''ftp'', ''hdl'', ''prospero'', ''http'', ''imap'',
     ''https'', ''shttp'', ''rtsp'', ''rtsps'', ''rtspu'', ''sip'',
     ''sips'', ''mms'', ''sftp'', ''tel'']"

text \<open>\<^verbatim>\<open>a, b = s.split(c, 1)\<close> for a string that contains \<^verbatim>\<open>c\<close>.\<close>

definition split_once :: "char \<Rightarrow> string \<Rightarrow> string \<times> string" where
  "split_once c s = (takeWhile (\<lambda>x. x \<noteq> c) s, drop 1 (dropWhile (\<lambda>x. x \<noteq> c) s))"

definition c0_control_or_space :: "char \<Rightarrow> bool" where
  "c0_control_or_space c = ((of_char c :: nat) \<le> 32)"

definition unsafe_url_byte :: "char \<Rightarrow> bool" where
  "unsafe_url_byte c = ((of_char c :: nat) \<in> {9, 13, 10})"

definition splitnetloc :: "string \<Rightarrow> string \<times> string" where
  "splitnetloc url =
     (let rest = drop 2 url;
          delim = (\<lambda>c. c = CHR ''/'' \<or> c = CHR ''?'' \<or> c = CHR ''#'')
      in (takeWhile (\<lambda>c. \<not> delim c) rest, dropWhile (\<lambda>c. \<not> delim c) rest))"

definition urlsplit :: "string \<Rightarrow> string \<times> string \<times> string \<times> string \<times> string" where
  "urlsplit url0 =
     (let url1 = filter (\<lambda>c. \<not> unsafe_url_byte c) (dropWhile c0_control_or_space url0);
          pre = takeWhile (\<lambda>c. c \<noteq> CHR '':'') url1;
          (sch, url2) =
            (if CHR '':'' \<in> set url1 \<and> pre \<noteq> []
                \<and> hd pre \<in> set (ascii_lowercase @ ascii_uppercase)
                \<and> (\<forall>c \<in> set pre. c \<in> set scheme_chars)
             then (lower pre, drop (length pre + 1) url1)
             else ('''', url1));
          (nl, url3) =
            (if take 2 url2 = ''//'' then splitnetloc url2 else ('''', url2));
          (url4, frag) =
            (if CHR ''#'' \<in> set url3 then split_once (CHR ''#'') url3 else (url3, ''''));
          (url5, qry) =
            (if CHR ''?'' \<in> set url4 then split_once (CHR ''?'') url4 else (url4, ''''))
      in (sch, nl, url5, qry, frag))"

definition splitparams :: "string \<Rightarrow> string \<times> string" where
  "splitparams url =
     (let start = length url - length (takeWhile (\<lambda>c. c \<noteq> CHR ''/'') (rev url));
          seg = drop start url
      in if CHR '';'' \<notin> set seg then (url, '''')
         else (let i = start + length (takeWhile (\<lambda>c. c \<noteq> CHR '';'') seg)
               in (take i url, drop (i + 1) url)))"

definition urlparse :: "string \<Rightarrow> parse_result" where
  "urlparse url =
     (case urlsplit url of (sch, nl, url1, qry, frag) \<Rightarrow>
        (let (url2, prm) =
               (if sch \<in> set uses_params \<and> CHR '';'' \<in> set url1
                then splitparams url1 else (url1, ''''))
         in \<lparr>scheme = sch, netloc = nl, path = url2, params = prm,
             query = qry, fragment = frag\<rparr>))"

text \<open>
  \<^verbatim>\<open>urlsplit\<close> raises \<^verbatim>\<open>ValueError\<close> in two places, both on account of the authority:
  right after it has split the authority off, when the authority has one kind of square
  bracket without the other, or has both and the text between them is not an IPv6 or
  IPvFuture literal; and in \<^verbatim>\<open>_checknetloc\<close>, which looks only at an authority with a
  character outside ASCII. The check of the literal is the library's \<^verbatim>\<open>ipaddress\<close> module
  and is not transcribed, nor is the Unicode normalisation of \<^verbatim>\<open>_checknetloc\<close>. So a URL
  whose authority is ASCII text without a square bracket is always parsed, and any other
  URL is one on which the library may raise. The repository calls \<^verbatim>\<open>urlparse\<close> outside any
  \<^verbatim>\<open>try\<close> on the start URL (in \<^verbatim>\<open>scrape_website_to_file\<close>) and on every link of the link
  loop (in \<^verbatim>\<open>_recursive_scrape\<close> and \<^verbatim>\<open>_is_file_url\<close>); an exception there ends the crawl.
\<close>

definition urlparse_may_raise :: "string \<Rightarrow> bool" where
  "urlparse_may_raise url =
     (case urlsplit url of (sch, nl, rest) \<Rightarrow>
        CHR ''['' \<in> set nl \<or> CHR '']'' \<in> set nl \<or> (\<exists>c \<in> set nl. 128 \<le> (of_char c :: nat)))"

definition urlunsplit :: "string \<Rightarrow> string \<Rightarrow> string \<Rightarrow> string \<Rightarrow> string \<Rightarrow> string" where
  "urlunsplit sch nl url0 qry frag =
     (let url1 =
            (if nl \<noteq> '''' \<or> (sch \<noteq> '''' \<and> sch \<in> set uses_netloc \<and> take 2 url0 \<noteq> ''//'')
             then ''//'' @ nl @ (if url0 \<noteq> '''' \<and> take 1 url0 \<noteq> ''/'' then ''/'' @ url0 else url0)
             else url0);
          url2 = (if sch \<noteq> '''' then sch @ '':'' @ url1 else url1);
          url3 = (if qry \<noteq> '''' then url2 @ ''?'' @ qry else url2)
      in (if frag \<noteq> '''' then url3 @ ''#'' @ frag else url3))"

definition geturl :: "parse_result \<Rightarrow> string" where
  "geturl p =
     urlunsplit (scheme p) (netloc p)
       (if params p \<noteq> '''' then path p @ '';'' @ params p else path p)
       (query p) (fragment p)"

section \<open>URL Classifier\<close>

definition FILE_EXTENSIONS :: "string list" where
  "FILE_EXTENSIONS =
    [''.pdf'', ''.doc'', ''.docx'', ''.xls'', ''.xlsx'', ''.ppt'', ''.pptx'', ''.zip'', ''.rar'',
     ''.tar'', ''.gz'', ''.bz2'', ''.7z'', ''.exe'', ''.dmg'', ''.apk'',
     ''.jpg'', ''.jpeg'', ''.png'', ''.gif'', ''.bmp'', ''.svg'', ''.webp'',
     ''.mp3'', ''.wav'', ''.ogg'', ''.flac'',
     ''.mp4'', ''.avi'', ''.mov'', ''.wmv'', ''.flv'', ''.webm'',
     ''.txt'', ''.csv'', ''.json'', ''.xml'', ''.yaml'', ''.md'',
     ''.css'', ''.js'', ''.php'', ''.asp'', ''.aspx'', ''.jsp'', ''.cfm'', ''.cgi'']"

definition is_file_url :: "string \<Rightarrow> bool" where
  "is_file_url url =
     (let p = lower (path (urlparse url))
      in list_ex (\<lambda>ext. endswith p ext) FILE_EXTENSIONS)"

section \<open>Effects, network and crawl state\<close>

text \<open>
  What a run does is recorded as events: entering \<^verbatim>\<open>_recursive_scrape\<close> for a URL at a
  depth, one \<^verbatim>\<open>requests.get\<close> with its timeout in seconds, one \<^verbatim>\<open>time.sleep\<close> with its
  length in seconds, each update of the three global collections, and the \<^verbatim>\<open>break\<close> of
  a link loop, with the depth of the page whose links the loop was going through.
  Console output is not recorded, except the report of a failed write of the inventory.
\<close>

datatype event =
    Enter string int
  | HttpGet string real
  | Sleep real
  | Discover string
  | Visit string
  | Extract string
  | Break int

text \<open>
  One attempt of the \<^verbatim>\<open>try\<close> block of \<^verbatim>\<open>_get_page_content\<close>, as the outside world
  decides it: the request times out, raises another request error (connection failure
  or an HTTP error status), the processing of the response raises some other
  exception, or the response is parsed. A parsed response is given by its cleaned text
  and, for every anchor with an \<^verbatim>\<open>href\<close> in document order, the value of
  \<^verbatim>\<open>urljoin(url, href)\<close>. An attempt in which \<^verbatim>\<open>urljoin\<close> or \<^verbatim>\<open>urlparse\<close> raises for some
  anchor is one whose processing raises, not a parsed response. A network gives the
  outcome of every attempt number at every URL.
\<close>

datatype attempt =
    Timeout
  | RequestException
  | UnexpectedError
  | Response string "string list"

type_synonym network = "string \<Rightarrow> nat \<Rightarrow> attempt"

record crawl_state =
  visited_urls :: "string set"
  all_discovered_urls :: "string set"
  all_extracted_content :: "(string \<times> string) list"

text \<open>
  A run carries the three globals and its history: every event so far, newest first,
  each with the globals as they were right after it.
\<close>

record run =
  globals :: crawl_state
  history :: "(event \<times> crawl_state) list"

definition trace :: "run \<Rightarrow> event list" where
  "trace r = rev (map fst (history r))"

definition emit :: "event \<Rightarrow> run \<Rightarrow> run" where
  "emit e r = r\<lparr>history := (e, globals r) # history r\<rparr>"

definition discover :: "string \<Rightarrow> run \<Rightarrow> run" where
  "discover url r =
     emit (Discover url)
       (r\<lparr>globals := (globals r)\<lparr>all_discovered_urls :=
             insert url (all_discovered_urls (globals r))\<rparr>\<rparr>)"

definition visit :: "string \<Rightarrow> run \<Rightarrow> run" where
  "visit url r =
     emit (Visit url)
       (r\<lparr>globals := (globals r)\<lparr>visited_urls := insert url (visited_urls (globals r))\<rparr>\<rparr>)"

definition extract_content :: "string \<Rightarrow> string \<Rightarrow> run \<Rightarrow> run" where
  "extract_content url text_content r =
     emit (Extract url)
       (r\<lparr>globals := (globals r)\<lparr>all_extracted_content :=
             all_extracted_content (globals r) @ [(url, text_content)]\<rparr>\<rparr>)"

text \<open>
  \<^verbatim>\<open>time.sleep(seconds)\<close> raises \<^verbatim>\<open>ValueError\<close> for a negative length and \<^verbatim>\<open>OverflowError\<close>
  for a length beyond the range of the platform's clock (about \<open>9.2 * 10^9\<close> seconds where
  the clock counts nanoseconds in 64 bits); every length from \<open>0\<close> to \<open>10^9\<close> seconds is
  slept. Both calls of the repository are outside any \<^verbatim>\<open>try\<close>. The step \<open>sleep\<close> is the
  call when it returns.
\<close>

definition sleep_may_raise :: "real \<Rightarrow> bool" where
  "sleep_may_raise seconds = (seconds < 0 \<or> 10 ^ 9 < seconds)"

definition sleep :: "real \<Rightarrow> run \<Rightarrow> run" where
  "sleep seconds r = emit (Sleep seconds) r"

section \<open>Page Fetcher\<close>

text \<open>
  The link extraction of \<^verbatim>\<open>_get_page_content\<close>. The source collects the links in a
  Python set and returns \<^verbatim>\<open>list(found_links)\<close>, whose order is unspecified; the model
  returns them without duplicates in document order.
\<close>

definition keep_link :: "string \<Rightarrow> bool" where
  "keep_link full_url =
     (let parsed_full_url = urlparse full_url
      in scheme parsed_full_url \<in> set [''http'', ''https'']
         \<and> fragment parsed_full_url = []
         \<and> \<not> startswith full_url ''mailto:'')"

definition normalized_url :: "string \<Rightarrow> string" where
  "normalized_url full_url = geturl ((urlparse full_url)\<lparr>fragment := []\<rparr>)"

definition extract_links :: "string list \<Rightarrow> string list" where
  "extract_links full_urls = remdups (map normalized_url (filter keep_link full_urls))"

text \<open>The \<^verbatim>\<open>try\<close> block: \<open>None\<close> when it raises, otherwise what it returns.\<close>

fun try_fetch :: "attempt \<Rightarrow> (string \<times> string list) option" where
  "try_fetch (Response text_content full_urls) = Some (text_content, extract_links full_urls)"
| "try_fetch Timeout = None"
| "try_fetch RequestException = None"
| "try_fetch UnexpectedError = None"

text \<open>
  The loop \<^verbatim>\<open>for attempt in range(max_retries)\<close>, from attempt number \<open>attempt\<close> with
  \<open>n\<close> iterations left. It returns the result (\<open>None\<close> for \<^verbatim>\<open>(None, None)\<close>) and the
  events in the order they happen. The sleep between two attempts is outside the
  \<^verbatim>\<open>try\<close>: for a delay with \<open>sleep_may_raise\<close> the call of the source can end at the first
  \<open>Sleep\<close> event with the exception of \<^verbatim>\<open>time.sleep\<close>, and what the function gives from
  there on describes no execution. The traversal calls it with the delay \<open>1\<close>.
\<close>

fun attempts_from ::
  "network \<Rightarrow> string \<Rightarrow> int \<Rightarrow> real \<Rightarrow> nat \<Rightarrow> nat \<Rightarrow> (string \<times> string list) option \<times> event list"
where
  "attempts_from net url max_retries delay attempt 0 = (None, [])"
| "attempts_from net url max_retries delay attempt (Suc n) =
     (case try_fetch (net url attempt) of
        Some res \<Rightarrow> (Some res, [HttpGet url 10])
      | None \<Rightarrow>
          (let (res, evs) = attempts_from net url max_retries delay (Suc attempt) n
           in (res, HttpGet url 10
                    # (if int attempt < max_retries - 1 then [Sleep delay] else []) @ evs)))"

definition get_page_content ::
  "network \<Rightarrow> string \<Rightarrow> int \<Rightarrow> real \<Rightarrow> (string \<times> string list) option \<times> event list"
where
  "get_page_content net url max_retries delay =
     attempts_from net url max_retries delay 0 (nat max_retries)"

section \<open>Traversal Engine\<close>

text \<open>
  The call \<^verbatim>\<open>_get_page_content(current_url)\<close> of the traversal: the retry count and the
  retry delay are the defaults of the signature, \<open>3\<close> and \<open>1\<close>.
\<close>

definition fetch :: "network \<Rightarrow> string \<Rightarrow> run \<Rightarrow> (string \<times> string list) option \<times> run" where
  "fetch net url r =
     (let (res, evs) = get_page_content net url 3 1
      in (res, foldl (\<lambda>r' e. emit e r') r evs))"

text \<open>
  The body of \<^verbatim>\<open>_recursive_scrape\<close> up to the link loop: it returns \<^verbatim>\<open>found_links\<close>
  (\<open>None\<close> for Python's \<^verbatim>\<open>None\<close>) and the run.
\<close>

definition should_scrape_content :: "string \<Rightarrow> int \<Rightarrow> int \<Rightarrow> int \<Rightarrow> crawl_state \<Rightarrow> bool" where
  "should_scrape_content current_url max_depth current_depth scrape_content_limit g =
     (current_url \<notin> visited_urls g
      \<and> current_depth \<le> max_depth
      \<and> int (length (all_extracted_content g)) < scrape_content_limit)"

definition scrape_page ::
  "network \<Rightarrow> string \<Rightarrow> int \<Rightarrow> int \<Rightarrow> int \<Rightarrow> run \<Rightarrow> string list option \<times> run"
where
  "scrape_page net current_url max_depth current_depth scrape_content_limit r0 =
     (let r1 = discover current_url (emit (Enter current_url current_depth) r0)
      in if should_scrape_content current_url max_depth current_depth scrape_content_limit
              (globals r1)
         then (let r2 = visit current_url r1;
                   (res, r3) = fetch net current_url r2
               in case res of
                    None \<Rightarrow> (None, r3)
                  | Some (text_content, found_links) \<Rightarrow>
                      (Some found_links,
                       if text_content \<noteq> [] then extract_content current_url text_content r3 else r3))
         else if current_url \<notin> visited_urls (globals r1)
         then (let r2 = visit current_url r1;
                   (res, r3) = fetch net current_url r2
               in (map_option snd res, r3))
         else (None, r1))"

function recursive_scrape ::
    "network \<Rightarrow> string \<Rightarrow> string \<Rightarrow> int \<Rightarrow> int \<Rightarrow> int \<Rightarrow> real \<Rightarrow> run \<Rightarrow> run"
  and scrape_links ::
    "network \<Rightarrow> string \<Rightarrow> string list \<Rightarrow> int \<Rightarrow> int \<Rightarrow> int \<Rightarrow> real \<Rightarrow> run \<Rightarrow> run"
where
  "recursive_scrape net base_url_netloc current_url max_depth current_depth
       scrape_content_limit politeness_delay r =
     (case scrape_page net current_url max_depth current_depth scrape_content_limit r of
        (None, r1) \<Rightarrow> r1
      | (Some found_links, r1) \<Rightarrow>
          scrape_links net base_url_netloc found_links max_depth current_depth
            scrape_content_limit politeness_delay r1)"
| "scrape_links net base_url_netloc [] max_depth current_depth
       scrape_content_limit politeness_delay r = r"
| "scrape_links net base_url_netloc (link # links) max_depth current_depth
       scrape_content_limit politeness_delay r =
     (let r1 = discover link r;
          is_internal = (netloc (urlparse link) = base_url_netloc);
          is_file = is_file_url link
      in if is_internal \<and> \<not> is_file \<and> link \<notin> visited_urls (globals r1)
            \<and> current_depth < max_depth
         then (if int (length (all_extracted_content (globals r1))) \<ge> scrape_content_limit
               then emit (Break current_depth) r1
               else scrape_links net base_url_netloc links max_depth current_depth
                      scrape_content_limit politeness_delay
                      (recursive_scrape net base_url_netloc link max_depth (current_depth + 1)
                         scrape_content_limit politeness_delay (sleep politeness_delay r1)))
         else scrape_links net base_url_netloc links max_depth current_depth
                scrape_content_limit politeness_delay r1)"
  by pat_completeness auto
termination
  by (relation "inv_image (less_than <*lex*> less_than <*lex*> less_than)
        (\<lambda>x. case x of
            Inl (net, b, u, md, d, mp, dl, r) \<Rightarrow> (nat (md - d), 1::nat, 0::nat)
          | Inr (net, b, ls, md, d, mp, dl, r) \<Rightarrow> (nat (md - d), 0, length ls))")
     auto

text \<open>
  The same recursion with a bound on the number of nested \<^verbatim>\<open>_recursive_scrape\<close> frames:
  \<open>None\<close> when a call would need a frame beyond the bound.
\<close>

function recursive_scrape_bounded ::
    "nat \<Rightarrow> network \<Rightarrow> string \<Rightarrow> string \<Rightarrow> int \<Rightarrow> int \<Rightarrow> int \<Rightarrow> real \<Rightarrow> run \<Rightarrow> run option"
  and scrape_links_bounded ::
    "nat \<Rightarrow> network \<Rightarrow> string \<Rightarrow> string list \<Rightarrow> int \<Rightarrow> int \<Rightarrow> int \<Rightarrow> real \<Rightarrow> run \<Rightarrow> run option"
where
  "recursive_scrape_bounded 0 net base_url_netloc current_url max_depth current_depth
       scrape_content_limit politeness_delay r = None"
| "recursive_scrape_bounded (Suc frames) net base_url_netloc current_url max_depth current_depth
       scrape_content_limit politeness_delay r =
     (case scrape_page net current_url max_depth current_depth scrape_content_limit r of
        (None, r1) \<Rightarrow> Some r1
      | (Some found_links, r1) \<Rightarrow>
          scrape_links_bounded frames net base_url_netloc found_links max_depth current_depth
            scrape_content_limit politeness_delay r1)"
| "scrape_links_bounded frames net base_url_netloc [] max_depth current_depth
       scrape_content_limit politeness_delay r = Some r"
| "scrape_links_bounded frames net base_url_netloc (link # links) max_depth current_depth
       scrape_content_limit politeness_delay r =
     (let r1 = discover link r;
          is_internal = (netloc (urlparse link) = base_url_netloc);
          is_file = is_file_url link
      in if is_internal \<and> \<not> is_file \<and> link \<notin> visited_urls (globals r1)
            \<and> current_depth < max_depth
         then (if int (length (all_extracted_content (globals r1))) \<ge> scrape_content_limit
               then Some (emit (Break current_depth) r1)
               else (case recursive_scrape_bounded frames net base_url_netloc link max_depth
                            (current_depth + 1) scrape_content_limit politeness_delay
                            (sleep politeness_delay r1) of
                       None \<Rightarrow> None
                     | Some r2 \<Rightarrow>
                         scrape_links_bounded frames net base_url_netloc links max_depth
                           current_depth scrape_content_limit politeness_delay r2))
         else scrape_links_bounded frames net base_url_netloc links max_depth current_depth
                scrape_content_limit politeness_delay r1)"
  by pat_completeness auto
termination
  by (relation "inv_image (less_than <*lex*> less_than)
        (\<lambda>x. case x of
            Inl (k, net, b, u, md, d, mp, dl, r) \<Rightarrow> (2 * k, 0::nat)
          | Inr (k, net, b, ls, md, d, mp, dl, r) \<Rightarrow> (2 * k + 1, length ls))")
     auto

section \<open>Crawl Orchestrator\<close>

text \<open>
  Writing the inventory: \<^verbatim>\<open>open(output_filename, 'w', encoding='utf-8')\<close> and one
  \<^verbatim>\<open>f.write(url + '\n')\<close> per URL. The source catches \<^verbatim>\<open>IOError\<close> only. For a file name
  with a NUL character \<^verbatim>\<open>open\<close> raises \<^verbatim>\<open>ValueError\<close>, which is not caught and ends the call
  with nothing returned (\<open>open_raises_value_error\<close>). For any other file name the
  destination either takes the whole text, or an \<^verbatim>\<open>IOError\<close> is raised somewhere in the
  block, caught and reported; the model then says nothing about what the destination
  holds (\<open>None\<close>). Which of the two happens is the environment's choice, the parameter
  \<open>writable\<close>.
\<close>

definition open_raises_value_error :: "string \<Rightarrow> bool" where
  "open_raises_value_error filename = (CHR 0x00 \<in> set filename)"

definition newline :: char where
  "newline = CHR 0x0A"

definition inventory_text :: "string list \<Rightarrow> string" where
  "inventory_text urls = concat (map (\<lambda>url. url @ [newline]) urls)"

record crawl_result =
  extracted_content :: "(string \<times> string) list"
  discovered_urls :: "string list"
  written :: "string option"
  io_error_reported :: bool
  finished :: run

definition fresh :: run where
  "fresh = \<lparr>globals = \<lparr>visited_urls = {}, all_discovered_urls = {},
                         all_extracted_content = []\<rparr>,
            history = []\<rparr>"

definition scrape_website_to_file ::
  "network \<Rightarrow> (string \<Rightarrow> bool) \<Rightarrow> string \<Rightarrow> string \<Rightarrow> int \<Rightarrow> int \<Rightarrow> real \<Rightarrow> crawl_result"
where
  "scrape_website_to_file net writable start_url output_filename max_pages_to_visit
       max_depth politeness_delay =
     (let base_url_netloc = netloc (urlparse start_url);
          r = recursive_scrape net base_url_netloc start_url max_depth 0
                max_pages_to_visit politeness_delay fresh;
          sorted_discovered_urls = sorted_list_of_set (all_discovered_urls (globals r))
      in \<lparr>extracted_content = all_extracted_content (globals r),
          discovered_urls = sorted_discovered_urls,
          written = (if writable output_filename
                     then Some (inventory_text sorted_discovered_urls) else None),
          io_error_reported = (\<not> writable output_filename),
          finished = r\<rparr>)"

section \<open>Exceptions that leave the traversal\<close>

text \<open>
  The definitions above follow a call of the source as long as no exception leaves it.
  Inside \<^verbatim>\<open>_get_page_content\<close> every exception of an attempt is caught (an \<open>attempt\<close> that
  is not a \<open>Response\<close>). Outside it there are four places where an exception can
  arise, and none is inside a \<^verbatim>\<open>try\<close>: \<^verbatim>\<open>urlparse\<close> of the start URL and of a link of
  the link loop, each made for a URL that has just been recorded as discovered or is
  recorded first thing by the call; \<^verbatim>\<open>time.sleep\<close> of the politeness delay; the call of
  \<^verbatim>\<open>_recursive_scrape\<close> itself, which the interpreter ends with \<^verbatim>\<open>RecursionError\<close> when
  the calls are nested deeper than its recursion limit; and \<^verbatim>\<open>open\<close> of the inventory. An
  exception there ends the whole crawl, with nothing written and nothing returned.

  The recursion limit of CPython is 1000 frames unless it is changed. A call of
  \<^verbatim>\<open>_recursive_scrape\<close> at depth \<open>d\<close> has \<open>d + 1\<close> frames of that function on the stack,
  under them the frames of the caller, and above them, during a fetch, some tens of
  frames of the libraries. Depths below \<open>500\<close> are taken as within the limit.

  In terms of the events of the model: a \<open>Discover\<close> of a URL on which \<^verbatim>\<open>urlparse\<close> may
  raise, a \<open>Sleep\<close> of a length on which \<^verbatim>\<open>time.sleep\<close> may raise, or an \<open>Enter\<close> at a depth
  of \<open>500\<close> or more, is a point where the source may stop, and up to the first such event
  the source does what the model does. A history without such an event is one the
  source goes through to its end.
\<close>

definition nesting_may_raise :: "int \<Rightarrow> bool" where
  "nesting_may_raise depth = (500 \<le> depth)"

fun raises_at :: "event \<Rightarrow> bool" where
  "raises_at (Discover url) = urlparse_may_raise url"
| "raises_at (Sleep seconds) = sleep_may_raise seconds"
| "raises_at (Enter url depth) = nesting_may_raise depth"
| "raises_at (HttpGet url seconds) = False"
| "raises_at (Visit url) = False"
| "raises_at (Extract url) = False"
| "raises_at (Break depth) = False"

definition uninterrupted :: "(event \<times> crawl_state) list \<Rightarrow> bool" where
  "uninterrupted entries = list_all (\<lambda>x. \<not> raises_at (fst x)) entries"

section \<open>Reading the inventory\<close>

text \<open>
  The inventory is read by \<^verbatim>\<open>download_content_from_urls\<close> of the repository:
  \<^verbatim>\<open>open(url_list_file, 'r', encoding='utf-8')\<close> and
  \<^verbatim>\<open>[line.strip() for line in f if line.strip()]\<close>.
  A file opened for reading in text mode translates each of the line ends
  \<^verbatim>\<open>'\r\n'\<close>, \<^verbatim>\<open>'\r'\<close> and \<^verbatim>\<open>'\n'\<close> to \<^verbatim>\<open>'\n'\<close> (so it also undoes the translation of
  \<^verbatim>\<open>'\n'\<close> to the line separator of the platform that writing in text mode makes where
  the two differ):
\<close>

definition carriage_return :: char where
  "carriage_return = CHR 0x0D"

fun universal_newlines :: "string \<Rightarrow> string" where
  "universal_newlines [] = []"
| "universal_newlines [c] = [if c = carriage_return then newline else c]"
| "universal_newlines (c # d # cs) =
     (if c = carriage_return \<and> d = newline then newline # universal_newlines cs
      else if c = carriage_return then newline # universal_newlines (d # cs)
      else c # universal_newlines (d # cs))"

text \<open>
  Iterating over the file gives its lines, each with its line feed, the last one without
  if the text does not end in one: \<open>cur\<close> is the line read so far.
\<close>

fun lines_from :: "string \<Rightarrow> string \<Rightarrow> string list" where
  "lines_from cur [] = (if cur = [] then [] else [cur])"
| "lines_from cur (c # cs) =
     (if c = newline then (cur @ [c]) # lines_from [] cs else lines_from (cur @ [c]) cs)"

text \<open>
  \<^verbatim>\<open>str.isspace\<close> for one character with a code below 256, and \<^verbatim>\<open>str.strip()\<close>, which
  removes such characters from both ends.
\<close>

definition isspace :: "char \<Rightarrow> bool" where
  "isspace c = ((of_char c :: nat) \<in> {9, 10, 11, 12, 13, 28, 29, 30, 31, 32, 133, 160})"

definition strip :: "string \<Rightarrow> string" where
  "strip s = rev (dropWhile isspace (rev (dropWhile isspace s)))"

text \<open>The list \<^verbatim>\<open>urls_to_download\<close> read from a file with the given contents.\<close>

definition urls_to_download :: "string \<Rightarrow> string list" where
  "urls_to_download contents =
     filter (\<lambda>line. line \<noteq> [])
       (map strip (lines_from [] (universal_newlines contents)))"

section \<open>Auxiliary definitions for the statements\<close>

text \<open>
  The events of a fetch that makes \<open>n + 1\<close> requests: each of the first \<open>n\<close> is
  followed by one sleep of the retry delay.
\<close>

definition retry_events :: "string \<Rightarrow> real \<Rightarrow> nat \<Rightarrow> event list" where
  "retry_events url delay n =
     concat (replicate n [HttpGet url 10, Sleep delay]) @ [HttpGet url 10]"

text \<open>Two networks: one answers from the third attempt on, one never answers.\<close>

definition flaky :: network where
  "flaky url k = (if k < 2 then Timeout else Response ''text'' [''https://a.test/p1''])"

definition dead :: network where
  "dead url k = RequestException"

text \<open>
  The states a run has gone through: the globals after every event, and the current ones.
  The first event of a crawl is \<open>Enter\<close>, which changes nothing, so the state the crawl
  starts from is among them.
\<close>

definition states_during :: "run \<Rightarrow> crawl_state list" where
  "states_during r = globals r # map snd (history r)"

text \<open>
  The invariant of the crawl state for a page limit: the three properties of the data
  model, and that content is held only for visited URLs.
\<close>

definition crawl_inv :: "int \<Rightarrow> crawl_state \<Rightarrow> bool" where
  "crawl_inv scrape_content_limit g =
     (visited_urls g \<subseteq> all_discovered_urls g
      \<and> int (length (all_extracted_content g)) \<le> max 0 scrape_content_limit
      \<and> distinct (map fst (all_extracted_content g))
      \<and> fst ` set (all_extracted_content g) \<subseteq> visited_urls g)"

definition run_inv :: "int \<Rightarrow> run \<Rightarrow> bool" where
  "run_inv scrape_content_limit r = list_all (crawl_inv scrape_content_limit) (states_during r)"

text \<open>The entries a run \<open>r'\<close> has added to the history of an earlier run \<open>r\<close>.\<close>

definition added :: "run \<Rightarrow> run \<Rightarrow> (event \<times> crawl_state) list" where
  "added r r' = take (length (history r') - length (history r)) (history r')"

text \<open>
  A later run extends an earlier one: the history grows at the newest end, content is
  appended, the two sets grow.
\<close>

definition extends :: "run \<Rightarrow> run \<Rightarrow> bool" where
  "extends r r' =
     ((\<exists>new. history r' = new @ history r)
      \<and> (\<exists>more. all_extracted_content (globals r')
                    = all_extracted_content (globals r) @ more)
      \<and> all_discovered_urls (globals r) \<subseteq> all_discovered_urls (globals r')
      \<and> visited_urls (globals r) \<subseteq> visited_urls (globals r'))"

text \<open>An example site: a start page with an internal page, an external link and a file.\<close>

definition site :: network where
  "site url k =
     (if url = ''https://a.test/''
      then Response ''home''
             [''https://a.test/p1'', ''https://ext.test/x'', ''https://a.test/f.pdf'']
      else if url = ''https://a.test/p1''
      then Response ''page one'' [''https://a.test/'']
      else RequestException)"

text \<open>
  The test of the link loop for descending into a link: the link is internal, is not a
  file, is not visited, and the depth of the page is below the maximum.
\<close>

definition may_descend :: "string \<Rightarrow> int \<Rightarrow> int \<Rightarrow> string \<Rightarrow> crawl_state \<Rightarrow> bool" where
  "may_descend base_url_netloc max_depth current_depth link g =
     (netloc (urlparse link) = base_url_netloc \<and> \<not> is_file_url link
      \<and> link \<notin> visited_urls g \<and> current_depth < max_depth)"


text \<open>A network that answers every request with the same text and no links.\<close>

definition report :: network where
  "report url k = Response ''annual report'' []"

text \<open>A shop: its start page links to an internal page, an external image and a file.\<close>

definition shop :: network where
  "shop url k =
     (if url = ''https://shop.test/''
      then Response ''welcome''
             [''https://shop.test/cart'', ''https://cdn.test/logo.png'',
              ''https://shop.test/terms.pdf'']
      else Response ''cart'' [])"

text \<open>
  The condition under which \<^verbatim>\<open>_recursive_scrape\<close> is entered for \<open>u\<close> at depth \<open>d\<close> from
  a run: either nothing has happened yet (the call of the orchestrator), or the last
  event was the sleep of the politeness delay and \<open>u\<close> is internal, not a file and not
  visited, the depth is between one and the maximum, and the limit is not reached.
\<close>

definition entry_ok ::
  "string \<Rightarrow> int \<Rightarrow> int \<Rightarrow> real \<Rightarrow> string \<Rightarrow> int \<Rightarrow> (event \<times> crawl_state) list
    \<Rightarrow> crawl_state \<Rightarrow> bool"
where
  "entry_ok b md mp dl u d older g =
     (older = []
      \<or> (fst (hd older) = Sleep dl
         \<and> netloc (urlparse u) = b \<and> \<not> is_file_url u \<and> u \<notin> visited_urls g
         \<and> 0 < d \<and> d \<le> md
         \<and> int (length (all_extracted_content g)) < mp))"

text \<open>A history (newest first) in which every entry of \<^verbatim>\<open>_recursive_scrape\<close> is as above.\<close>

fun descents_ok ::
  "string \<Rightarrow> int \<Rightarrow> int \<Rightarrow> real \<Rightarrow> (event \<times> crawl_state) list \<Rightarrow> bool"
where
  "descents_ok b md mp dl [] = True"
| "descents_ok b md mp dl ((Enter u d, g) # older) =
     (entry_ok b md mp dl u d older g \<and> descents_ok b md mp dl older)"
| "descents_ok b md mp dl (x # older) = descents_ok b md mp dl older"

text \<open>The URLs for which \<^verbatim>\<open>_recursive_scrape\<close> was entered, in the order of the events.\<close>

fun entered_urls :: "event list \<Rightarrow> string list" where
  "entered_urls [] = []"
| "entered_urls (Enter u d # es) = u # entered_urls es"
| "entered_urls (e # es) = entered_urls es"

text \<open>Every URL entered so far is visited, and none was entered twice.\<close>

definition entered_once :: "run \<Rightarrow> bool" where
  "entered_once r = (set (entered_urls (trace r)) \<subseteq> visited_urls (globals r)
                     \<and> distinct (entered_urls (trace r)))"

text \<open>
  The crawl configuration as the data model of the specification lists it, and a crawl
  started from it. The entry point \<^verbatim>\<open>scrape_website_to_file\<close> has parameters for the first
  five fields only; nothing in the source takes the last three.
\<close>

record crawl_config =
  cfg_start_url :: string
  cfg_output :: string
  cfg_max_pages :: int
  cfg_max_depth :: int
  cfg_delay :: real
  cfg_fetch_timeout :: real
  cfg_max_fetch_retries :: int
  cfg_retry_delay :: real

definition crawl_with :: "network \<Rightarrow> (string \<Rightarrow> bool) \<Rightarrow> crawl_config \<Rightarrow> crawl_result" where
  "crawl_with net writable cfg =
     scrape_website_to_file net writable (cfg_start_url cfg) (cfg_output cfg)
       (cfg_max_pages cfg) (cfg_max_depth cfg) (cfg_delay cfg)"

text \<open>A configuration asking for one attempt per fetch, a timeout of 5 and a retry delay of 7.\<close>

definition impatient :: crawl_config where
  "impatient = \<lparr>cfg_start_url = ''https://a.test/'', cfg_output = ''discovered_urls.txt'',
                 cfg_max_pages = 50, cfg_max_depth = 0, cfg_delay = 0.5,
                 cfg_fetch_timeout = 5, cfg_max_fetch_retries = 1, cfg_retry_delay = 7\<rparr>"

text \<open>
  The requests of a run are within the built-in values: every request has the timeout
  \<open>10\<close>, no URL is requested more than \<open>3\<close> times, and only visited URLs are requested.
\<close>

definition requests_built_in :: "run \<Rightarrow> bool" where
  "requests_built_in r =
     (\<forall>u t. (t \<noteq> 10 \<longrightarrow> HttpGet u t \<notin> set (trace r))
            \<and> count_list (trace r) (HttpGet u 10) \<le> 3
            \<and> (u \<notin> visited_urls (globals r) \<longrightarrow> HttpGet u 10 \<notin> set (trace r)))"

text \<open>Every sleep of a run is the retry delay \<open>1\<close> or the politeness delay.\<close>

definition sleeps_built_in :: "real \<Rightarrow> run \<Rightarrow> bool" where
  "sleeps_built_in politeness_delay r =
     (\<forall>t. Sleep t \<in> set (trace r) \<longrightarrow> t = 1 \<or> t = politeness_delay)"

text \<open>A page whose only anchor points into another page of the same host.\<close>

definition anchored :: network where
  "anchored url k =
     (if url = ''https://x/'' then Response ''contents'' [''https://x/page#sec'']
      else RequestException)"

text \<open>A start URL with a line feed in it.\<close>

definition broken_url :: string where
  "broken_url = ''https://a.test/'' @ [newline] @ ''x''"

text \<open>
  A URL that is one line of the inventory and is read back as it was written: it is not
  empty, has no line feed and no carriage return, and neither starts nor ends with a
  whitespace character.
\<close>

definition line_safe :: "string \<Rightarrow> bool" where
  "line_safe url =
     (url \<noteq> [] \<and> newline \<notin> set url \<and> carriage_return \<notin> set url
      \<and> \<not> isspace (hd url) \<and> \<not> isspace (last url))"

text \<open>Start URLs with a carriage return inside, and with a space at the end.\<close>

definition returning_url :: string where
  "returning_url = ''https://a.test/'' @ [carriage_return] @ ''x''"

definition spaced_url :: string where
  "spaced_url = ''https://a.test/x ''"

section \<open>Page Fetcher: retries\<close>

lemma attempts_from_last_succeeds:
  "a + Suc n = nat max_retries \<Longrightarrow>
   (\<forall>k. a \<le> k \<and> k < a + n \<longrightarrow> try_fetch (net url k) = None) \<Longrightarrow>
   try_fetch (net url (a + n)) = Some res \<Longrightarrow>
   attempts_from net url max_retries delay a (Suc n) = (Some res, retry_events url delay n)"
proof (induction n arbitrary: a)
  case 0
  then show ?case by (simp add: retry_events_def)
next
  case (Suc n)
  have none: "try_fetch (net url a) = None" using Suc.prems(2) by simp
  have more: "int a < max_retries - 1" using Suc.prems(1) by linarith
  have "attempts_from net url max_retries delay (Suc a) (Suc n)
          = (Some res, retry_events url delay n)"
    using Suc.prems by (intro Suc.IH) auto
  with none more show ?case by (simp add: retry_events_def)
qed

lemma attempts_from_all_fail:
  "a + Suc n = nat max_retries \<Longrightarrow>
   (\<forall>k. a \<le> k \<and> k \<le> a + n \<longrightarrow> try_fetch (net url k) = None) \<Longrightarrow>
   attempts_from net url max_retries delay a (Suc n) = (None, retry_events url delay n)"
proof (induction n arbitrary: a)
  case 0
  then have "\<not> int a < max_retries - 1" by linarith
  with 0 show ?case by (simp add: retry_events_def)
next
  case (Suc n)
  have none: "try_fetch (net url a) = None" using Suc.prems(2) by simp
  have more: "int a < max_retries - 1" using Suc.prems(1) by linarith
  have "attempts_from net url max_retries delay (Suc a) (Suc n)
          = (None, retry_events url delay n)"
    using Suc.prems by (intro Suc.IH) auto
  with none more show ?case by (simp add: retry_events_def)
qed

lemma sleeps_of_retry_events:
  "filter (\<lambda>e. \<exists>s. e = Sleep s) (retry_events url delay m) = replicate m (Sleep delay)"
  by (induction m) (simp_all add: retry_events_def)

text \<open>
  Claim C5. Let \<open>max_retries \<ge> 1\<close>, and let the retry delay be a length that
  \<^verbatim>\<open>time.sleep\<close> sleeps (from \<open>0\<close> to \<open>10^9\<close> seconds). If the first \<open>max_retries - 1\<close> attempts raise and
  the last one returns \<open>res\<close>, then \<^verbatim>\<open>_get_page_content\<close> returns \<open>res\<close>, after
  \<open>max_retries\<close> requests separated by exactly \<open>max_retries - 1\<close> sleeps, each of the same
  length \<open>delay\<close>. If all \<open>max_retries\<close> attempts raise, it returns the failure value
  \<^verbatim>\<open>(None, None)\<close> (no text, no links) after the same requests and sleeps; nothing is
  raised to the caller.
\<close>

theorem get_page_content_retry:
  assumes "1 \<le> max_retries" and "\<not> sleep_may_raise delay"
  shows "((\<forall>k < nat max_retries - 1. try_fetch (net url k) = None)
           \<and> try_fetch (net url (nat max_retries - 1)) = Some res
          \<longrightarrow> get_page_content net url max_retries delay
                = (Some res, retry_events url delay (nat max_retries - 1))
              \<and> filter (\<lambda>e. \<exists>s. e = Sleep s) (retry_events url delay (nat max_retries - 1))
                = replicate (nat max_retries - 1) (Sleep delay))
         \<and> ((\<forall>k < nat max_retries. try_fetch (net url k) = None)
          \<longrightarrow> get_page_content net url max_retries delay
                = (None, retry_events url delay (nat max_retries - 1)))"
proof -
  obtain n where n: "nat max_retries = Suc n"
    using assms(1) by (cases "nat max_retries") auto
  show ?thesis
    unfolding get_page_content_def n
    using attempts_from_last_succeeds [of 0 n max_retries net url res delay]
          attempts_from_all_fail [of 0 n max_retries net url delay] n
          sleeps_of_retry_events [of url delay n]
    by (auto simp: less_Suc_eq_le)
qed

theorem get_page_content_retry_witness:
  "(1::int) \<le> 3 \<and> \<not> sleep_may_raise 1
   \<and> get_page_content flaky ''https://a.test/'' 3 1
     = (Some (''text'', [''https://a.test/p1'']),
        [HttpGet ''https://a.test/'' 10, Sleep 1, HttpGet ''https://a.test/'' 10, Sleep 1,
         HttpGet ''https://a.test/'' 10])
   \<and> get_page_content dead ''https://a.test/'' 3 1
     = (None,
        [HttpGet ''https://a.test/'' 10, Sleep 1, HttpGet ''https://a.test/'' 10, Sleep 1,
         HttpGet ''https://a.test/'' 10])"
proof -
  have e: "extract_links [''https://a.test/p1''] = [''https://a.test/p1'']"
    by code_simp
  have f: "\<forall>k < nat 3 - 1. try_fetch (flaky ''https://a.test/'' k) = None"
    by (simp add: flaky_def)
  have s: "try_fetch (flaky ''https://a.test/'' (nat 3 - 1))
             = Some (''text'', [''https://a.test/p1''])"
    by (simp add: flaky_def e)
  have d: "\<forall>k < nat 3. try_fetch (dead ''https://a.test/'' k) = None"
    by (simp add: dead_def)
  have r: "retry_events ''https://a.test/'' 1 (nat 3 - 1)
             = [HttpGet ''https://a.test/'' 10, Sleep 1, HttpGet ''https://a.test/'' 10,
                Sleep 1, HttpGet ''https://a.test/'' 10]"
    by (simp add: retry_events_def numeral_2_eq_2)
  show ?thesis
    using get_page_content_retry
            [where max_retries = 3 and net = flaky and url = "''https://a.test/''"
               and res = "(''text'', [''https://a.test/p1''])" and delay = 1]
          get_page_content_retry
            [where max_retries = 3 and net = dead and url = "''https://a.test/''"
               and res = "(''text'', [''https://a.test/p1''])" and delay = 1]
          f s d r
    by (simp add: sleep_may_raise_def)
qed

section \<open>The primitive steps\<close>

lemma globals_emit [simp]: "globals (emit e r) = globals r"
  by (simp add: emit_def)

lemma history_emit [simp]: "history (emit e r) = (e, globals r) # history r"
  by (simp add: emit_def)

lemma globals_sleep [simp]: "globals (sleep t r) = globals r"
  by (simp add: sleep_def)

lemma history_sleep [simp]: "history (sleep t r) = (Sleep t, globals r) # history r"
  by (simp add: sleep_def)

lemma globals_discover [simp]:
  "globals (discover u r)
     = (globals r)\<lparr>all_discovered_urls := insert u (all_discovered_urls (globals r))\<rparr>"
  by (simp add: discover_def)

lemma history_discover [simp]:
  "history (discover u r) = (Discover u, globals (discover u r)) # history r"
  by (simp add: discover_def)

lemma globals_visit [simp]:
  "globals (visit u r) = (globals r)\<lparr>visited_urls := insert u (visited_urls (globals r))\<rparr>"
  by (simp add: visit_def)

lemma history_visit [simp]:
  "history (visit u r) = (Visit u, globals (visit u r)) # history r"
  by (simp add: visit_def)

lemma globals_extract_content [simp]:
  "globals (extract_content u t r)
     = (globals r)\<lparr>all_extracted_content := all_extracted_content (globals r) @ [(u, t)]\<rparr>"
  by (simp add: extract_content_def)

lemma history_extract_content [simp]:
  "history (extract_content u t r) = (Extract u, globals (extract_content u t r)) # history r"
  by (simp add: extract_content_def)

lemma globals_emit_all [simp]: "globals (foldl (\<lambda>r' e. emit e r') r evs) = globals r"
  by (induction evs arbitrary: r) simp_all

lemma history_emit_all [simp]:
  "history (foldl (\<lambda>r' e. emit e r') r evs)
     = rev (map (\<lambda>e. (e, globals r)) evs) @ history r"
  by (induction evs arbitrary: r) simp_all

lemma fst_fetch [simp]: "fst (fetch net u r) = fst (get_page_content net u 3 1)"
  by (simp add: fetch_def split: prod.split)

lemma globals_fetch [simp]: "globals (snd (fetch net u r)) = globals r"
  by (simp add: fetch_def split: prod.split)

lemma history_fetch [simp]:
  "history (snd (fetch net u r))
     = rev (map (\<lambda>e. (e, globals r)) (snd (get_page_content net u 3 1))) @ history r"
  by (simp add: fetch_def split: prod.split)

lemma events_attempts_from:
  "set (snd (attempts_from net url max_retries delay a n)) \<subseteq> {HttpGet url 10, Sleep delay}"
proof (induction n arbitrary: a)
  case 0
  then show ?case by simp
next
  case (Suc n)
  then show ?case
    using Suc.IH [of "Suc a"] by (auto simp: split_beta split: option.splits)
qed

lemma events_get_page_content:
  "set (snd (get_page_content net url max_retries delay)) \<subseteq> {HttpGet url 10, Sleep delay}"
  by (simp add: get_page_content_def events_attempts_from)

lemma visited_fresh [simp]: "visited_urls (globals fresh) = {}"
  by (simp add: fresh_def)

lemma extracted_fresh [simp]: "all_extracted_content (globals fresh) = []"
  by (simp add: fresh_def)

lemma history_fresh [simp]: "history fresh = []"
  by (simp add: fresh_def)

lemma discovered_fresh [simp]: "all_discovered_urls (globals fresh) = {}"
  by (simp add: fresh_def)

section \<open>The three ways of one iteration of the link loop\<close>

declare recursive_scrape.simps [simp del]

lemma scrape_links_skip:
  "\<not> may_descend b md d l (globals r) \<Longrightarrow>
   scrape_links net b (l # ls) md d mp dl r = scrape_links net b ls md d mp dl (discover l r)"
  by (auto simp: may_descend_def Let_def)

lemma scrape_links_break:
  "may_descend b md d l (globals r) \<Longrightarrow>
   mp \<le> int (length (all_extracted_content (globals r))) \<Longrightarrow>
   scrape_links net b (l # ls) md d mp dl r = emit (Break d) (discover l r)"
  by (auto simp: may_descend_def Let_def)

lemma scrape_links_descend:
  "may_descend b md d l (globals r) \<Longrightarrow>
   \<not> mp \<le> int (length (all_extracted_content (globals r))) \<Longrightarrow>
   scrape_links net b (l # ls) md d mp dl r
     = scrape_links net b ls md d mp dl
         (recursive_scrape net b l md (d + 1) mp dl (sleep dl (discover l r)))"
  by (auto simp: may_descend_def Let_def)

lemma recursive_scrape_no_links:
  assumes "fst (scrape_page net u md d mp r) = None"
  shows "recursive_scrape net b u md d mp dl r = snd (scrape_page net u md d mp r)"
proof -
  obtain fl r1 where sp: "scrape_page net u md d mp r = (fl, r1)" by force
  with assms show ?thesis by (simp add: recursive_scrape.simps)
qed

lemma recursive_scrape_links:
  assumes "fst (scrape_page net u md d mp r) = Some links"
  shows "recursive_scrape net b u md d mp dl r
           = scrape_links net b links md d mp dl (snd (scrape_page net u md d mp r))"
proof -
  obtain fl r1 where sp: "scrape_page net u md d mp r = (fl, r1)" by force
  with assms show ?thesis by (simp add: recursive_scrape.simps)
qed

declare scrape_links.simps(2) [simp del]

text \<open>
  Induction along the recursion, with one case for the page and one for each way of an
  iteration of the link loop.
\<close>

lemma crawl_induct [case_names page nil skip break descend]:
  assumes page: "\<And>net b u md d mp dl r.
      (\<And>links. fst (scrape_page net u md d mp r) = Some links \<Longrightarrow>
         Q net b links md d mp dl (snd (scrape_page net u md d mp r))) \<Longrightarrow>
      P net b u md d mp dl r"
    and nil: "\<And>net b md d mp dl r. Q net b [] md d mp dl r"
    and skip: "\<And>net b l ls md d mp dl r.
      \<not> may_descend b md d l (globals r) \<Longrightarrow>
      Q net b ls md d mp dl (discover l r) \<Longrightarrow>
      Q net b (l # ls) md d mp dl r"
    and break: "\<And>net b l ls md d mp dl r.
      may_descend b md d l (globals r) \<Longrightarrow>
      mp \<le> int (length (all_extracted_content (globals r))) \<Longrightarrow>
      Q net b (l # ls) md d mp dl r"
    and descend: "\<And>net b l ls md d mp dl r.
      may_descend b md d l (globals r) \<Longrightarrow>
      \<not> mp \<le> int (length (all_extracted_content (globals r))) \<Longrightarrow>
      P net b l md (d + 1) mp dl (sleep dl (discover l r)) \<Longrightarrow>
      Q net b ls md d mp dl
        (recursive_scrape net b l md (d + 1) mp dl (sleep dl (discover l r))) \<Longrightarrow>
      Q net b (l # ls) md d mp dl r"
  shows "P net b u md d mp dl r" and "Q net b ls md d mp dl r"
proof (induction net b u md d mp dl r and net b ls md d mp dl r
       rule: recursive_scrape_scrape_links.induct)
  case (1 net b u md d mp dl r)
  show ?case
  proof (rule page)
    fix links
    assume a: "fst (scrape_page net u md d mp r) = Some links"
    have "(fst (scrape_page net u md d mp r), snd (scrape_page net u md d mp r))
            = scrape_page net u md d mp r"
      by simp
    from "1.IH" [OF this a]
    show "Q net b links md d mp dl (snd (scrape_page net u md d mp r))" .
  qed
next
  case (2 net b md d mp dl r)
  show ?case by (rule nil)
next
  case (3 net b l ls md d mp dl r)
  show ?case
  proof (cases "may_descend b md d l (globals r)")
    case False
    then show ?thesis
      using "3.IH"(3) [OF refl refl refl] by (intro skip) (auto simp: may_descend_def)
  next
    case True
    show ?thesis
    proof (cases "mp \<le> int (length (all_extracted_content (globals r)))")
      case full: True
      show ?thesis by (rule break [OF True full])
    next
      case room: False
      have c: "netloc (urlparse l) = b \<and> \<not> is_file_url l
                 \<and> l \<notin> visited_urls (globals (discover l r)) \<and> d < md"
        using True by (simp add: may_descend_def)
      have r: "\<not> mp \<le> int (length (all_extracted_content (globals (discover l r))))"
        using room by simp
      show ?thesis
        by (rule descend [OF True room "3.IH"(1) [OF refl refl refl c r]
                          "3.IH"(2) [OF refl refl refl c r]])
    qed
  qed
qed

section \<open>The invariant of the crawl state\<close>

lemma states_during_emit [simp]:
  "states_during (emit e r) = globals r # states_during r"
  by (simp add: states_during_def)

lemma run_inv_emit [simp]: "run_inv mp (emit e r) = run_inv mp r"
  by (auto simp: run_inv_def states_during_def)

lemma run_inv_sleep [simp]: "run_inv mp (sleep t r) = run_inv mp r"
  by (simp add: sleep_def)

lemma run_inv_emit_all [simp]: "run_inv mp (foldl (\<lambda>r' e. emit e r') r evs) = run_inv mp r"
  by (induction evs arbitrary: r) simp_all

lemma run_inv_fetch [simp]: "run_inv mp (snd (fetch net u r)) = run_inv mp r"
  by (simp add: fetch_def split: prod.split)

lemma run_inv_discover: "run_inv mp r \<Longrightarrow> run_inv mp (discover u r)"
  by (auto simp: run_inv_def states_during_def crawl_inv_def)

lemma run_inv_visit:
  "run_inv mp r \<Longrightarrow> u \<in> all_discovered_urls (globals r) \<Longrightarrow> run_inv mp (visit u r)"
  by (auto simp: run_inv_def states_during_def crawl_inv_def)

lemma run_inv_extract_content:
  "run_inv mp r \<Longrightarrow> u \<in> visited_urls (globals r) \<Longrightarrow>
   u \<notin> fst ` set (all_extracted_content (globals r)) \<Longrightarrow>
   int (length (all_extracted_content (globals r))) < mp \<Longrightarrow>
   run_inv mp (extract_content u t r)"
  by (auto simp: run_inv_def states_during_def crawl_inv_def)

lemma run_inv_unvisited:
  "run_inv mp r \<Longrightarrow> u \<notin> visited_urls (globals r) \<Longrightarrow>
   u \<notin> fst ` set (all_extracted_content (globals r))"
  by (auto simp: run_inv_def states_during_def crawl_inv_def)

lemma run_inv_scrape_page:
  assumes "run_inv mp r"
  shows "run_inv mp (snd (scrape_page net u md d mp r))"
proof -
  let ?r1 = "discover u (emit (Enter u d) r)"
  let ?r3 = "snd (fetch net u (visit u ?r1))"
  have r1: "run_inv mp ?r1" using assms by (simp add: run_inv_discover)
  have r2: "run_inv mp (visit u ?r1)" by (rule run_inv_visit [OF r1]) simp
  have r3: "run_inv mp ?r3" using r2 by simp
  have ex: "run_inv mp (extract_content u t ?r3)"
    if "should_scrape_content u md d mp (globals ?r1)" for t
  proof (rule run_inv_extract_content [OF r3])
    show "u \<in> visited_urls (globals ?r3)" by simp
    have "u \<notin> fst ` set (all_extracted_content (globals ?r1))"
      using that by (intro run_inv_unvisited [OF r1]) (simp add: should_scrape_content_def)
    then show "u \<notin> fst ` set (all_extracted_content (globals ?r3))"
      by simp
    show "int (length (all_extracted_content (globals ?r3))) < mp"
      using that by (simp add: should_scrape_content_def)
  qed
  show ?thesis
    using r1 r3 ex
    by (simp add: scrape_page_def Let_def split_beta split: option.split)
qed

lemma run_inv_recursive_scrape:
  "run_inv mp r \<Longrightarrow> run_inv mp (recursive_scrape net b u md d mp dl r)"
  and run_inv_scrape_links:
  "run_inv mp r \<Longrightarrow> run_inv mp (scrape_links net b ls md d mp dl r)"
proof (induction net b u md d mp dl r and net b ls md d mp dl r rule: crawl_induct)
  case (page net b u md d mp dl r)
  have r1: "run_inv mp (snd (scrape_page net u md d mp r))"
    by (rule run_inv_scrape_page [OF page.prems])
  show ?case
  proof (cases "fst (scrape_page net u md d mp r)")
    case None
    with r1 show ?thesis by (simp add: recursive_scrape_no_links)
  next
    case (Some links)
    show ?thesis
      unfolding recursive_scrape_links [OF Some] by (rule page.IH [OF Some r1])
  qed
next
  case (nil net b md d mp dl r)
  then show ?case by simp
next
  case (skip net b l ls md d mp dl r)
  show ?case
    unfolding scrape_links_skip [OF skip.hyps]
    by (rule skip.IH [OF run_inv_discover [OF skip.prems]])
next
  case (break net b l ls md d mp dl r)
  show ?case
    unfolding scrape_links_break [OF break.hyps]
    using run_inv_discover [OF break.prems] by simp
next
  case (descend net b l ls md d mp dl r)
  have "run_inv mp (sleep dl (discover l r))"
    using run_inv_discover [OF descend.prems] by simp
  then show ?case
    unfolding scrape_links_descend [OF descend.hyps]
    by (intro descend.IH)
qed

lemma run_inv_fresh: "run_inv mp fresh"
  by (simp add: run_inv_def states_during_def crawl_inv_def fresh_def)

lemma finished_crawl:
  "finished (scrape_website_to_file net writable start_url output_filename mp md dl)
     = recursive_scrape net (netloc (urlparse start_url)) start_url md 0 mp dl fresh"
  by (simp add: scrape_website_to_file_def Let_def)

text \<open>
  Claim C1, as amended. In every crawl, every state the run goes through, from the
  cleared one to the final one, satisfies: \<open>visited\<close> is a subset of \<open>discovered\<close>; the
  length of \<open>extractedContent\<close> is at most \<open>maxPages\<close> when \<open>maxPages\<close> is not negative
  and is zero when it is negative; no URL appears twice in \<open>extractedContent\<close>.
\<close>

theorem crawl_state_invariant:
  "\<forall>s \<in> set (states_during (finished
        (scrape_website_to_file net writable start_url output_filename
           max_pages_to_visit max_depth politeness_delay))).
      visited_urls s \<subseteq> all_discovered_urls s
      \<and> int (length (all_extracted_content s)) \<le> max 0 max_pages_to_visit
      \<and> distinct (map fst (all_extracted_content s))"
proof -
  have "run_inv max_pages_to_visit
          (recursive_scrape net (netloc (urlparse start_url)) start_url max_depth 0
             max_pages_to_visit politeness_delay fresh)"
    by (rule run_inv_recursive_scrape [OF run_inv_fresh])
  then show ?thesis
    by (simp add: finished_crawl run_inv_def list_all_iff crawl_inv_def)
qed

section \<open>Runs only grow\<close>

lemma extends_refl [simp]: "extends r r"
  by (simp add: extends_def)

lemma extends_trans: "extends r r' \<Longrightarrow> extends r' r'' \<Longrightarrow> extends r r''"
  unfolding extends_def by (elim conjE exE) auto

lemma extends_emit [simp]: "extends r (emit e r)"
  by (simp add: extends_def)

lemma extends_sleep [simp]: "extends r (sleep t r)"
  by (simp add: extends_def)

lemma extends_discover [simp]: "extends r (discover u r)"
  by (auto simp: extends_def)

lemma extends_visit [simp]: "extends r (visit u r)"
  by (auto simp: extends_def)

lemma extends_extract_content [simp]: "extends r (extract_content u t r)"
  by (auto simp: extends_def)

lemma extends_fetch [simp]: "extends r (snd (fetch net u r))"
  by (simp add: extends_def)

lemma extends_scrape_page: "extends r (snd (scrape_page net u md d mp r))"
proof -
  let ?r0 = "emit (Enter u d) r"
  let ?r1 = "discover u ?r0"
  let ?r3 = "snd (fetch net u (visit u ?r1))"
  have r1: "extends r ?r1"
    by (rule extends_trans [OF extends_emit extends_discover])
  have r3: "extends r ?r3"
    by (rule extends_trans [OF r1 extends_trans [OF extends_visit extends_fetch]])
  have ex: "extends r (extract_content u t ?r3)" for t
    by (rule extends_trans [OF r3 extends_extract_content])
  show ?thesis
    using r1 r3 ex
    by (simp add: scrape_page_def Let_def split_beta split: option.split)
qed

lemma extends_recursive_scrape:
  "extends r (recursive_scrape net b u md d mp dl r)"
  and extends_scrape_links:
  "extends r (scrape_links net b ls md d mp dl r)"
proof (induction net b u md d mp dl r and net b ls md d mp dl r rule: crawl_induct)
  case (page net b u md d mp dl r)
  show ?case
  proof (cases "fst (scrape_page net u md d mp r)")
    case None
    then show ?thesis by (simp add: recursive_scrape_no_links extends_scrape_page)
  next
    case (Some links)
    show ?thesis
      unfolding recursive_scrape_links [OF Some]
      by (rule extends_trans [OF extends_scrape_page page [OF Some]])
  qed
next
  case (nil net b md d mp dl r)
  show ?case by simp
next
  case (skip net b l ls md d mp dl r)
  show ?case
    unfolding scrape_links_skip [OF skip(1)]
    by (rule extends_trans [OF extends_discover skip(2)])
next
  case (break net b l ls md d mp dl r)
  show ?case
    unfolding scrape_links_break [OF break]
    by (rule extends_trans [OF extends_discover extends_emit])
next
  case (descend net b l ls md d mp dl r)
  show ?case
    unfolding scrape_links_descend [OF descend(1,2)]
    by (rule extends_trans [OF extends_discover
          extends_trans [OF extends_sleep extends_trans [OF descend(3,4)]]])
qed

section \<open>What a run adds to the history\<close>

lemma added_append: "history r' = new @ history r \<Longrightarrow> added r r' = new"
  by (simp add: added_def)

lemma history_added: "extends r r' \<Longrightarrow> history r' = added r r' @ history r"
  by (auto simp: extends_def added_def)

lemma added_same [simp]: "added r r = []"
  by (simp add: added_def)

lemma added_trans:
  assumes "extends r r'" "extends r' r''"
  shows "added r r'' = added r' r'' @ added r r'"
proof -
  have "history r'' = (added r' r'' @ added r r') @ history r"
    using history_added [OF assms(1)] history_added [OF assms(2)] by simp
  then show ?thesis by (rule added_append)
qed

lemma added_emit [simp]: "added r (emit e r) = [(e, globals r)]"
  by (rule added_append) simp

lemma added_sleep [simp]: "added r (sleep t r) = [(Sleep t, globals r)]"
  by (rule added_append) simp

lemma added_discover [simp]: "added r (discover u r) = [(Discover u, globals (discover u r))]"
  by (rule added_append) simp

lemma events_added_scrape_page:
  "fst ` set (added r (snd (scrape_page net u md d mp r)))
     \<subseteq> {Enter u d, Discover u, Visit u, Extract u, HttpGet u 10, Sleep 1}"
proof -
  let ?evs = "snd (get_page_content net u 3 1)"
  have evs: "set ?evs \<subseteq> {HttpGet u 10, Sleep 1}"
    by (rule events_get_page_content)
  have "\<exists>new. history (snd (scrape_page net u md d mp r)) = new @ history r
          \<and> fst ` set new \<subseteq> {Enter u d, Discover u, Visit u, Extract u} \<union> set ?evs"
    by (auto simp: scrape_page_def Let_def split_beta image_iff split: option.split)
  then obtain new where h: "history (snd (scrape_page net u md d mp r)) = new @ history r"
    and n: "fst ` set new \<subseteq> {Enter u d, Discover u, Visit u, Extract u} \<union> set ?evs"
    by blast
  show ?thesis
    unfolding added_append [OF h] using n evs by blast
qed

section \<open>Traces\<close>

lemma trace_emit [simp]: "trace (emit e r) = trace r @ [e]"
  by (simp add: trace_def)

lemma trace_sleep [simp]: "trace (sleep t r) = trace r @ [Sleep t]"
  by (simp add: trace_def)

lemma trace_discover [simp]: "trace (discover u r) = trace r @ [Discover u]"
  by (simp add: trace_def)

lemma trace_visit [simp]: "trace (visit u r) = trace r @ [Visit u]"
  by (simp add: trace_def)

lemma trace_extract_content [simp]: "trace (extract_content u t r) = trace r @ [Extract u]"
  by (simp add: trace_def)

lemma trace_fetch [simp]:
  "trace (snd (fetch net u r)) = trace r @ snd (get_page_content net u 3 1)"
  by (simp add: trace_def rev_map comp_def)

lemma trace_fresh [simp]: "trace fresh = []"
  by (simp add: trace_def)

lemma trace_scrape_page:
  "trace (snd (scrape_page net u md d mp r))
     = trace r @ [Enter u d, Discover u]
       @ (if u \<in> visited_urls (globals r) then []
          else [Visit u] @ snd (get_page_content net u 3 1)
               @ (case fst (get_page_content net u 3 1) of
                    None \<Rightarrow> []
                  | Some (text_content, found_links) \<Rightarrow>
                      if should_scrape_content u md d mp (globals r) \<and> text_content \<noteq> []
                      then [Extract u] else []))"
  by (auto simp: scrape_page_def Let_def split_beta should_scrape_content_def
           split: option.split)

lemma uninterrupted_trace:
  "uninterrupted (history r) = list_all (\<lambda>e. \<not> raises_at e) (trace r)"
  by (simp add: uninterrupted_def trace_def list_all_iff)

section \<open>The discovered set is finite\<close>

lemma finite_discovered_scrape_page:
  "finite (all_discovered_urls (globals r)) \<Longrightarrow>
   finite (all_discovered_urls (globals (snd (scrape_page net u md d mp r))))"
  by (auto simp: scrape_page_def Let_def split_beta split: option.split)

lemma finite_discovered_recursive_scrape:
  "finite (all_discovered_urls (globals r)) \<Longrightarrow>
   finite (all_discovered_urls (globals (recursive_scrape net b u md d mp dl r)))"
  and finite_discovered_scrape_links:
  "finite (all_discovered_urls (globals r)) \<Longrightarrow>
   finite (all_discovered_urls (globals (scrape_links net b ls md d mp dl r)))"
proof (induction net b u md d mp dl r and net b ls md d mp dl r rule: crawl_induct)
  case (page net b u md d mp dl r)
  have r1: "finite (all_discovered_urls (globals (snd (scrape_page net u md d mp r))))"
    by (rule finite_discovered_scrape_page [OF page.prems])
  show ?case
  proof (cases "fst (scrape_page net u md d mp r)")
    case None
    with r1 show ?thesis by (simp add: recursive_scrape_no_links)
  next
    case (Some links)
    show ?thesis
      unfolding recursive_scrape_links [OF Some] by (rule page.IH [OF Some r1])
  qed
next
  case (nil net b md d mp dl r)
  then show ?case by simp
next
  case (skip net b l ls md d mp dl r)
  show ?case
    unfolding scrape_links_skip [OF skip.hyps]
    using skip.prems by (intro skip.IH) simp
next
  case (break net b l ls md d mp dl r)
  show ?case
    unfolding scrape_links_break [OF break.hyps]
    using break.prems by simp
next
  case (descend net b l ls md d mp dl r)
  have "finite (all_discovered_urls (globals (sleep dl (discover l r))))"
    using descend.prems by simp
  then show ?case
    unfolding scrape_links_descend [OF descend.hyps]
    by (intro descend.IH)
qed

lemma finite_discovered_crawl:
  "finite (all_discovered_urls (globals (finished
     (scrape_website_to_file net writable start_url output_filename mp md dl))))"
  unfolding finished_crawl
  by (rule finite_discovered_recursive_scrape) (simp add: fresh_def)

lemma discovered_urls_crawl:
  "discovered_urls (scrape_website_to_file net writable start_url output_filename mp md dl)
     = sorted_list_of_set (all_discovered_urls (globals (finished
         (scrape_website_to_file net writable start_url output_filename mp md dl))))"
  by (simp add: scrape_website_to_file_def Let_def)

lemma set_discovered_urls_crawl:
  "set (discovered_urls (scrape_website_to_file net writable start_url output_filename mp md dl))
     = all_discovered_urls (globals (finished
         (scrape_website_to_file net writable start_url output_filename mp md dl)))"
  unfolding discovered_urls_crawl using finite_discovered_crawl by simp

section \<open>One call of the Traversal Engine, up to its link loop\<close>

lemma first_request: "HttpGet url 10 \<in> set (snd (get_page_content net url 3 1))"
  by (simp add: get_page_content_def numeral_3_eq_3 split_beta split: option.split)

lemma should_scrape_content_discovered [simp]:
  "should_scrape_content u md d mp (g\<lparr>all_discovered_urls := ds\<rparr>)
     = should_scrape_content u md d mp g"
  by (simp add: should_scrape_content_def)

lemma fst_scrape_page:
  "fst (scrape_page net u md d mp r)
     = (if u \<in> visited_urls (globals r) then None
        else map_option snd (fst (get_page_content net u 3 1)))"
  by (auto simp: scrape_page_def Let_def split_beta should_scrape_content_def
           split: option.split)

lemma extracted_scrape_page:
  "all_extracted_content (globals (snd (scrape_page net u md d mp r)))
     = all_extracted_content (globals r)
       @ (case fst (get_page_content net u 3 1) of
            None \<Rightarrow> []
          | Some (text_content, found_links) \<Rightarrow>
              if should_scrape_content u md d mp (globals r) \<and> text_content \<noteq> []
              then [(u, text_content)] else [])"
  by (auto simp: scrape_page_def Let_def split_beta split: option.split)

lemma discovered_scrape_page [simp]:
  "all_discovered_urls (globals (snd (scrape_page net u md d mp r)))
     = insert u (all_discovered_urls (globals r))"
  by (auto simp: scrape_page_def Let_def split_beta split: option.split)

lemma visited_scrape_page [simp]:
  "visited_urls (globals (snd (scrape_page net u md d mp r)))
     = insert u (visited_urls (globals r))"
  by (auto simp: scrape_page_def Let_def split_beta should_scrape_content_def split: option.split)

lemma requests_succeed_at_once:
  "try_fetch (net url 0) = Some res \<Longrightarrow>
   get_page_content net url 3 1 = (Some res, [HttpGet url 10])"
  by (simp add: get_page_content_def numeral_3_eq_3)

text \<open>
  The entries one call adds before its link loop, newest first: the append of the
  content if there is one, the events of the fetch, the marking as visited, the
  recording as discovered, the entry.
\<close>

lemma added_scrape_page:
  assumes "u \<notin> visited_urls (globals r)"
  shows "\<exists>ex. added r (snd (scrape_page net u md d mp r))
           = ex @ rev (map (\<lambda>e. (e, globals (visit u (discover u r))))
                       (snd (get_page_content net u 3 1)))
             @ [(Visit u, globals (visit u (discover u r))),
                (Discover u, globals (discover u r)),
                (Enter u d, globals r)]
         \<and> (\<forall>x \<in> set ex. fst x = Extract u)"
proof -
  let ?mid = "rev (map (\<lambda>e. (e, globals (visit u (discover u r))))
                       (snd (get_page_content net u 3 1)))
             @ [(Visit u, globals (visit u (discover u r))),
                (Discover u, globals (discover u r)),
                (Enter u d, globals r)]"
  have "\<exists>ex. history (snd (scrape_page net u md d mp r)) = (ex @ ?mid) @ history r
           \<and> (\<forall>x \<in> set ex. fst x = Extract u)"
    using assms
    by (auto simp: scrape_page_def Let_def split_beta should_scrape_content_def
             split: option.split)
  then obtain ex where h: "history (snd (scrape_page net u md d mp r)) = (ex @ ?mid) @ history r"
    and e: "\<forall>x \<in> set ex. fst x = Extract u" by blast
  from added_append [OF h] e show ?thesis by blast
qed

section \<open>The start URL\<close>

lemma extends_page_to_end:
  "extends (snd (scrape_page net u md d mp r)) (recursive_scrape net b u md d mp dl r)"
proof (cases "fst (scrape_page net u md d mp r)")
  case None
  then show ?thesis by (simp add: recursive_scrape_no_links)
next
  case (Some links)
  show ?thesis
    unfolding recursive_scrape_links [OF Some] by (rule extends_scrape_links)
qed

lemma extends_history: "extends r r' \<Longrightarrow> set (history r) \<subseteq> set (history r')"
  by (auto simp: extends_def)

lemma added_subset_history: "set (added r r') \<subseteq> set (history r')"
  unfolding added_def by (rule set_take_subset)

lemma extracted_content_crawl:
  "extracted_content (scrape_website_to_file net writable start_url output_filename mp md dl)
     = all_extracted_content (globals (finished
         (scrape_website_to_file net writable start_url output_filename mp md dl)))"
  by (simp add: scrape_website_to_file_def Let_def)

lemma extract_event_scrape_page:
  assumes "should_scrape_content u md d mp (globals r)"
    and "fst (get_page_content net u 3 1) = Some (text_content, found_links)"
    and "text_content \<noteq> []"
  shows "hd (history (snd (scrape_page net u md d mp r)))
           = (Extract u, globals (snd (scrape_page net u md d mp r)))"
  using assms
  by (auto simp: scrape_page_def Let_def split_beta should_scrape_content_def)

lemma history_scrape_page_nonempty: "history (snd (scrape_page net u md d mp r)) \<noteq> []"
  by (auto simp: scrape_page_def Let_def split_beta split: option.split)

text \<open>
  Claim C9. Neither the URL Classifier nor the link filter is applied to the start URL.
  For every start URL that \<^verbatim>\<open>urlparse\<close> takes (so also one with a file extension or a
  fragment), the crawl requests the start URL; and if \<open>0 \<le> max_depth\<close>,
  \<open>0 < max_pages_to_visit\<close> and the fetch returns a non-empty text, that text is
  extracted: the crawl has an \<open>Extract\<close> event for the start URL, after which the
  extracted content is the one pair \<open>(start_url, text)\<close>; and when no exception leaves the
  crawl, that pair is the first entry of the extracted content returned.
\<close>

theorem start_url_fetched_unfiltered:
  assumes "\<not> urlparse_may_raise start_url"
  shows "(let c = scrape_website_to_file net writable start_url output_filename
              max_pages_to_visit max_depth politeness_delay
    in HttpGet start_url 10 \<in> set (trace (finished c))
       \<and> (\<forall>text_content found_links.
             0 \<le> max_depth \<and> 0 < max_pages_to_visit
             \<and> fst (get_page_content net start_url 3 1) = Some (text_content, found_links)
             \<and> text_content \<noteq> []
             \<longrightarrow> (\<exists>s. (Extract start_url, s) \<in> set (history (finished c))
                       \<and> all_extracted_content s = [(start_url, text_content)])
                 \<and> (uninterrupted (history (finished c))
                      \<and> \<not> open_raises_value_error output_filename
                    \<longrightarrow> (\<exists>more. extracted_content c = (start_url, text_content) # more))))"
proof -
  let ?b = "netloc (urlparse start_url)"
  let ?r1 = "snd (scrape_page net start_url max_depth 0 max_pages_to_visit fresh)"
  let ?r = "recursive_scrape net ?b start_url max_depth 0 max_pages_to_visit
              politeness_delay fresh"
  have ext: "extends ?r1 ?r" by (rule extends_page_to_end)
  have nv: "start_url \<notin> visited_urls (globals fresh)" by simp
  have "\<exists>s. (HttpGet start_url 10, s) \<in> set (added fresh ?r1)"
    using added_scrape_page [OF nv, of net max_depth 0 max_pages_to_visit]
          first_request [of start_url net]
    by (auto simp: image_iff)
  then obtain s where "(HttpGet start_url 10, s) \<in> set (history ?r)"
    using added_subset_history [of fresh ?r1] extends_history [OF ext] by blast
  then have req: "HttpGet start_url 10 \<in> set (trace ?r)"
    by (force simp: trace_def)
  have con: "(\<exists>s. (Extract start_url, s) \<in> set (history ?r)
                 \<and> all_extracted_content s = [(start_url, text_content)])
             \<and> (\<exists>more. all_extracted_content (globals ?r) = (start_url, text_content) # more)"
    if "0 \<le> max_depth" "0 < max_pages_to_visit"
       "fst (get_page_content net start_url 3 1) = Some (text_content, found_links)"
       "text_content \<noteq> []" for text_content found_links
  proof -
    have sh: "should_scrape_content start_url max_depth 0 max_pages_to_visit (globals fresh)"
      using that by (simp add: should_scrape_content_def)
    have c1: "all_extracted_content (globals ?r1) = [(start_url, text_content)]"
      using that by (simp add: extracted_scrape_page should_scrape_content_def)
    have "hd (history ?r1) = (Extract start_url, globals ?r1)"
      by (rule extract_event_scrape_page [OF sh that(3,4)])
    then have "(Extract start_url, globals ?r1) \<in> set (history ?r1)"
      using history_scrape_page_nonempty [of net start_url max_depth 0 max_pages_to_visit fresh]
            hd_in_set by metis
    then have "(Extract start_url, globals ?r1) \<in> set (history ?r)"
      using extends_history [OF ext] by blast
    with c1 ext show ?thesis by (auto simp: extends_def)
  qed
  show ?thesis
    unfolding Let_def extracted_content_crawl finished_crawl
    using req con by blast
qed

lemma report_fetch:
  "get_page_content report url 3 1 = (Some (''annual report'', []), [HttpGet url 10])"
  by (rule requests_succeed_at_once) (simp add: report_def extract_links_def)

lemma report_crawl:
  "finished (scrape_website_to_file report writable start_url output_filename 50 3 0.5)
     = snd (scrape_page report start_url 3 0 50 fresh)"
  unfolding finished_crawl
  by (simp add: recursive_scrape_links fst_scrape_page report_fetch)

theorem start_url_fetched_unfiltered_witness:
  "\<not> urlparse_may_raise ''https://a.test/report.pdf#top''
   \<and> is_file_url ''https://a.test/report.pdf#top''
   \<and> fragment (urlparse ''https://a.test/report.pdf#top'') = ''top''
   \<and> \<not> keep_link ''https://a.test/report.pdf#top''
   \<and> (0::int) \<le> 3 \<and> (0::int) < 50
   \<and> fst (get_page_content report ''https://a.test/report.pdf#top'' 3 1)
       = Some (''annual report'', [])
   \<and> uninterrupted (history (finished (scrape_website_to_file report (\<lambda>f. True)
                 ''https://a.test/report.pdf#top'' ''discovered_urls.txt'' 50 3 0.5)))
   \<and> \<not> open_raises_value_error ''discovered_urls.txt''
   \<and> HttpGet ''https://a.test/report.pdf#top'' 10
       \<in> set (trace (finished (scrape_website_to_file report (\<lambda>f. True)
                 ''https://a.test/report.pdf#top'' ''discovered_urls.txt'' 50 3 0.5)))
   \<and> (\<exists>s. (Extract ''https://a.test/report.pdf#top'', s)
             \<in> set (history (finished (scrape_website_to_file report (\<lambda>f. True)
                 ''https://a.test/report.pdf#top'' ''discovered_urls.txt'' 50 3 0.5)))
           \<and> all_extracted_content s = [(''https://a.test/report.pdf#top'', ''annual report'')])
   \<and> (\<exists>more. extracted_content (scrape_website_to_file report (\<lambda>f. True)
                 ''https://a.test/report.pdf#top'' ''discovered_urls.txt'' 50 3 0.5)
               = (''https://a.test/report.pdf#top'', ''annual report'') # more)"
proof -
  have p: "\<not> urlparse_may_raise ''https://a.test/report.pdf#top''" by code_simp
  have f: "is_file_url ''https://a.test/report.pdf#top''" by code_simp
  have g: "fragment (urlparse ''https://a.test/report.pdf#top'') = ''top''" by code_simp
  have k: "\<not> keep_link ''https://a.test/report.pdf#top''" by code_simp
  have res: "fst (get_page_content report ''https://a.test/report.pdf#top'' 3 1)
       = Some (''annual report'', [])" by (simp add: report_fetch)
  have u: "uninterrupted (history (finished (scrape_website_to_file report (\<lambda>f. True)
                 ''https://a.test/report.pdf#top'' ''discovered_urls.txt'' 50 3 0.5)))"
    unfolding uninterrupted_trace report_crawl
    by (simp add: trace_scrape_page report_fetch p nesting_may_raise_def)
  have o: "\<not> open_raises_value_error ''discovered_urls.txt''"
    by (simp add: open_raises_value_error_def)
  note main = start_url_fetched_unfiltered
            [where net = report and writable = "\<lambda>f. True"
               and start_url = "''https://a.test/report.pdf#top''"
               and output_filename = "''discovered_urls.txt''" and max_pages_to_visit = 50
               and max_depth = 3 and politeness_delay = "0.5", OF p, unfolded Let_def]
  from main res u o
  have a: "HttpGet ''https://a.test/report.pdf#top'' 10
       \<in> set (trace (finished (scrape_website_to_file report (\<lambda>f. True)
                 ''https://a.test/report.pdf#top'' ''discovered_urls.txt'' 50 3 0.5)))"
    and b: "\<exists>s. (Extract ''https://a.test/report.pdf#top'', s)
             \<in> set (history (finished (scrape_website_to_file report (\<lambda>f. True)
                 ''https://a.test/report.pdf#top'' ''discovered_urls.txt'' 50 3 0.5)))
           \<and> all_extracted_content s = [(''https://a.test/report.pdf#top'', ''annual report'')]"
    and c: "\<exists>more. extracted_content (scrape_website_to_file report (\<lambda>f. True)
                 ''https://a.test/report.pdf#top'' ''discovered_urls.txt'' 50 3 0.5)
               = (''https://a.test/report.pdf#top'', ''annual report'') # more"
    by simp_all
  show ?thesis
    using p f g k res u o a b c by simp
qed

section \<open>The early end of the link loop\<close>

lemma shop_kept:
  "keep_link ''https://shop.test/cart'' \<and> keep_link ''https://cdn.test/logo.png''
   \<and> keep_link ''https://shop.test/terms.pdf''"
  by code_simp

lemma shop_normalized:
  "normalized_url ''https://shop.test/cart'' = ''https://shop.test/cart''
   \<and> normalized_url ''https://cdn.test/logo.png'' = ''https://cdn.test/logo.png''
   \<and> normalized_url ''https://shop.test/terms.pdf'' = ''https://shop.test/terms.pdf''"
  by code_simp

lemma shop_cart:
  "netloc (urlparse ''https://shop.test/cart'') = ''shop.test''
   \<and> \<not> is_file_url ''https://shop.test/cart''"
  by code_simp

lemma shop_start: "netloc (urlparse ''https://shop.test/'') = ''shop.test''"
  by code_simp

lemma shop_links:
  "get_page_content shop ''https://shop.test/'' 3 1
     = (Some (''welcome'', [''https://shop.test/cart'', ''https://cdn.test/logo.png'',
                           ''https://shop.test/terms.pdf'']),
        [HttpGet ''https://shop.test/'' 10])"
  by (rule requests_succeed_at_once)
     (simp add: shop_def extract_links_def shop_kept shop_normalized)

lemma shop_page:
  "fst (scrape_page shop ''https://shop.test/'' 3 0 1 fresh)
     = Some [''https://shop.test/cart'', ''https://cdn.test/logo.png'',
             ''https://shop.test/terms.pdf'']
   \<and> may_descend ''shop.test'' 3 0 ''https://shop.test/cart''
        (globals (snd (scrape_page shop ''https://shop.test/'' 3 0 1 fresh)))
   \<and> 1 \<le> int (length (all_extracted_content
        (globals (snd (scrape_page shop ''https://shop.test/'' 3 0 1 fresh)))))"
  by (simp add: fst_scrape_page shop_links may_descend_def shop_cart extracted_scrape_page
        should_scrape_content_def)

lemma shop_crawl:
  "finished (scrape_website_to_file shop (\<lambda>f. True) ''https://shop.test/''
       ''discovered_urls.txt'' 1 3 0.5)
   = emit (Break 0) (discover ''https://shop.test/cart''
       (snd (scrape_page shop ''https://shop.test/'' 3 0 1 fresh)))"
  unfolding finished_crawl shop_start
  using shop_page by (simp add: recursive_scrape_links scrape_links_break)

lemma shop_discovered:
  "set (discovered_urls (scrape_website_to_file shop (\<lambda>f. True)
       ''https://shop.test/'' ''discovered_urls.txt'' 1 3 0.5))
     = {''https://shop.test/cart'', ''https://shop.test/''}"
  unfolding set_discovered_urls_crawl shop_crawl by simp

text \<open>
  Claim C10. When the link loop reaches a link into which it would descend (internal,
  not a file, not visited, the depth below the maximum) while the extracted content has
  already reached the limit, the loop ends there: that link is the last one recorded,
  and no remaining link of the page is added to \<open>discovered\<close> by this loop. And there
  are runs in which a link returned by the Fetcher is not in \<open>discovered\<close> at the end.
\<close>

theorem link_loop_break_skips_rest:
  "(may_descend base_url_netloc max_depth current_depth link (globals r)
     \<and> scrape_content_limit \<le> int (length (all_extracted_content (globals r)))
    \<longrightarrow> all_discovered_urls (globals
           (scrape_links net base_url_netloc (link # links) max_depth current_depth
              scrape_content_limit politeness_delay r))
         = insert link (all_discovered_urls (globals r))
        \<and> (\<forall>l \<in> set links. l \<noteq> link \<and> l \<notin> all_discovered_urls (globals r) \<longrightarrow>
              l \<notin> all_discovered_urls (globals
                (scrape_links net base_url_netloc (link # links) max_depth current_depth
                   scrape_content_limit politeness_delay r))))
   \<and> (\<exists>net' start_url mp md dl text_content found_links l.
         fst (get_page_content net' start_url 3 1) = Some (text_content, found_links)
         \<and> l \<in> set found_links
         \<and> l \<notin> set (discovered_urls (scrape_website_to_file net' (\<lambda>f. True) start_url
                        ''discovered_urls.txt'' mp md dl)))"
proof -
  have gen: "all_discovered_urls (globals
           (scrape_links net base_url_netloc (link # links) max_depth current_depth
              scrape_content_limit politeness_delay r))
         = insert link (all_discovered_urls (globals r))"
    if "may_descend base_url_netloc max_depth current_depth link (globals r)"
       "scrape_content_limit \<le> int (length (all_extracted_content (globals r)))"
    using that by (simp add: scrape_links_break)
  have "fst (get_page_content shop ''https://shop.test/'' 3 1)
          = Some (''welcome'', [''https://shop.test/cart'', ''https://cdn.test/logo.png'',
                               ''https://shop.test/terms.pdf''])
        \<and> ''https://cdn.test/logo.png''
            \<in> set [''https://shop.test/cart'', ''https://cdn.test/logo.png'',
                    ''https://shop.test/terms.pdf'']
        \<and> ''https://cdn.test/logo.png''
            \<notin> set (discovered_urls (scrape_website_to_file shop (\<lambda>f. True)
                       ''https://shop.test/'' ''discovered_urls.txt'' 1 3 0.5))"
    unfolding shop_discovered by (simp add: shop_links)
  then have ex: "\<exists>net' start_url mp md dl text_content found_links l.
         fst (get_page_content net' start_url 3 1) = Some (text_content, found_links)
         \<and> l \<in> set found_links
         \<and> l \<notin> set (discovered_urls (scrape_website_to_file net' (\<lambda>f. True) start_url
                        ''discovered_urls.txt'' mp md dl))"
    by blast
  show ?thesis using gen ex by auto
qed

theorem link_loop_break_skips_rest_witness:
  "may_descend ''shop.test'' 3 0 ''https://shop.test/cart''
     (globals (snd (scrape_page shop ''https://shop.test/'' 3 0 1 fresh)))
   \<and> (1::int) \<le> int (length (all_extracted_content
         (globals (snd (scrape_page shop ''https://shop.test/'' 3 0 1 fresh)))))
   \<and> all_discovered_urls (globals
       (scrape_links shop ''shop.test''
          [''https://shop.test/cart'', ''https://cdn.test/logo.png'', ''https://shop.test/terms.pdf'']
          3 0 1 0.5 (snd (scrape_page shop ''https://shop.test/'' 3 0 1 fresh))))
       = {''https://shop.test/cart'', ''https://shop.test/''}
   \<and> ''https://cdn.test/logo.png'' \<notin> all_discovered_urls (globals
       (scrape_links shop ''shop.test''
          [''https://shop.test/cart'', ''https://cdn.test/logo.png'', ''https://shop.test/terms.pdf'']
          3 0 1 0.5 (snd (scrape_page shop ''https://shop.test/'' 3 0 1 fresh))))"
  using link_loop_break_skips_rest [of "''shop.test''" 3 0 "''https://shop.test/cart''"
          "snd (scrape_page shop ''https://shop.test/'' 3 0 1 fresh)" 1 shop
          "[''https://cdn.test/logo.png'', ''https://shop.test/terms.pdf'']" "0.5"]
        shop_page
  by auto

section \<open>Descending into links\<close>

lemma descents_ok_other:
  "(\<And>u k. e \<noteq> Enter u k) \<Longrightarrow>
   descents_ok b md mp dl ((e, g) # older) = descents_ok b md mp dl older"
  by (cases e) auto

lemma descents_ok_others:
  "(\<forall>x \<in> set new. \<forall>u k. fst x \<noteq> Enter u k) \<Longrightarrow>
   descents_ok b md mp dl (new @ older) = descents_ok b md mp dl older"
proof (induction new)
  case Nil
  show ?case by simp
next
  case (Cons x new)
  obtain e g where x: "x = (e, g)" by (cases x)
  have "\<And>u k. e \<noteq> Enter u k" using Cons.prems x by auto
  from descents_ok_other [OF this] Cons show ?case by (simp add: x)
qed

lemma history_scrape_page_shape:
  "\<exists>new. history (snd (scrape_page net u md d mp r)) = new @ (Enter u d, globals r) # history r
         \<and> (\<forall>x \<in> set new. \<forall>v k. fst x \<noteq> Enter v k)"
proof -
  let ?evs = "snd (get_page_content net u 3 1)"
  have evs: "set ?evs \<subseteq> {HttpGet u 10, Sleep 1}"
    by (rule events_get_page_content)
  have "\<exists>new. history (snd (scrape_page net u md d mp r)) = new @ (Enter u d, globals r) # history r
          \<and> fst ` set new \<subseteq> {Discover u, Visit u, Extract u} \<union> set ?evs"
    by (auto simp: scrape_page_def Let_def split_beta image_iff split: option.split)
  then obtain new where h: "history (snd (scrape_page net u md d mp r))
            = new @ (Enter u d, globals r) # history r"
    and n: "fst ` set new \<subseteq> {Discover u, Visit u, Extract u} \<union> set ?evs"
    by blast
  have "\<forall>x \<in> set new. \<forall>v k. fst x \<noteq> Enter v k"
  proof (intro ballI allI)
    fix x v k assume "x \<in> set new"
    then have "fst x \<in> {Discover u, Visit u, Extract u, HttpGet u 10, Sleep 1}"
      using n evs by blast
    then show "fst x \<noteq> Enter v k" by auto
  qed
  with h show ?thesis by blast
qed

lemma descents_ok_scrape_page:
  assumes "descents_ok b md mp dl (history r)"
    and "entry_ok b md mp dl u d (history r) (globals r)"
  shows "descents_ok b md mp dl (history (snd (scrape_page net u md d mp r)))"
proof -
  obtain new where h: "history (snd (scrape_page net u md d mp r))
            = new @ (Enter u d, globals r) # history r"
    and n: "\<forall>x \<in> set new. \<forall>v k. fst x \<noteq> Enter v k"
    using history_scrape_page_shape by blast
  show ?thesis
    unfolding h descents_ok_others [OF n] using assms by simp
qed

lemma descents_ok_recursive_scrape:
  "descents_ok b md mp dl (history r) \<Longrightarrow>
   entry_ok b md mp dl u d (history r) (globals r) \<Longrightarrow> 0 \<le> d \<Longrightarrow>
   descents_ok b md mp dl (history (recursive_scrape net b u md d mp dl r))"
  and descents_ok_scrape_links:
  "descents_ok b md mp dl (history r) \<Longrightarrow> 0 \<le> d \<Longrightarrow>
   descents_ok b md mp dl (history (scrape_links net b ls md d mp dl r))"
proof (induction net b u md d mp dl r and net b ls md d mp dl r rule: crawl_induct)
  case (page net b u md d mp dl r)
  have r1: "descents_ok b md mp dl (history (snd (scrape_page net u md d mp r)))"
    by (rule descents_ok_scrape_page [OF page.prems(1,2)])
  show ?case
  proof (cases "fst (scrape_page net u md d mp r)")
    case None
    with r1 show ?thesis by (simp add: recursive_scrape_no_links)
  next
    case (Some links)
    show ?thesis
      unfolding recursive_scrape_links [OF Some]
      by (rule page.IH [OF Some r1 page.prems(3)])
  qed
next
  case (nil net b md d mp dl r)
  then show ?case by simp
next
  case (skip net b l ls md d mp dl r)
  have "descents_ok b md mp dl (history (discover l r))"
    using skip.prems(1) by simp
  then show ?case
    unfolding scrape_links_skip [OF skip.hyps]
    by (rule skip.IH [OF _ skip.prems(2)])
next
  case (break net b l ls md d mp dl r)
  show ?case
    unfolding scrape_links_break [OF break.hyps]
    using break.prems(1) by simp
next
  case (descend net b l ls md d mp dl r)
  let ?r2 = "sleep dl (discover l r)"
  have h2: "descents_ok b md mp dl (history ?r2)"
    using descend.prems(1) by simp
  have e2: "entry_ok b md mp dl l (d + 1) (history ?r2) (globals ?r2)"
    using descend.hyps descend.prems(2) by (simp add: entry_ok_def may_descend_def)
  have d2: "0 \<le> d + 1" using descend.prems(2) by simp
  have "descents_ok b md mp dl (history (recursive_scrape net b l md (d + 1) mp dl ?r2))"
    by (rule descend.IH(1) [OF h2 e2 d2])
  then show ?case
    unfolding scrape_links_descend [OF descend.hyps]
    by (rule descend.IH(2) [OF _ descend.prems(2)])
qed

lemma descents_ok_nth:
  "descents_ok b md mp dl h \<Longrightarrow> Suc i < length h \<Longrightarrow> h ! i = (Enter u k, g) \<Longrightarrow>
   fst (h ! Suc i) = Sleep dl \<and> netloc (urlparse u) = b \<and> \<not> is_file_url u
   \<and> u \<notin> visited_urls g \<and> 0 < k \<and> k \<le> md \<and> int (length (all_extracted_content g)) < mp"
proof (induction h arbitrary: i)
  case Nil
  then show ?case by simp
next
  case (Cons x h)
  show ?case
  proof (cases i)
    case 0
    with Cons.prems have x: "x = (Enter u k, g)" and ne: "h \<noteq> []" by auto
    from Cons.prems(1) have "entry_ok b md mp dl u k h g" by (simp add: x)
    with ne 0 show ?thesis by (cases h) (auto simp: entry_ok_def)
  next
    case (Suc j)
    obtain e g' where x: "x = (e, g')" by (cases x)
    have "descents_ok b md mp dl h"
      using Cons.prems(1) by (cases e) (simp_all add: x)
    from Cons.IH [OF this, of j] Cons.prems(2,3) Suc show ?thesis by simp
  qed
qed

lemma descents_ok_crawl:
  "descents_ok (netloc (urlparse start_url)) md mp dl
     (history (finished (scrape_website_to_file net writable start_url output_filename mp md dl)))"
  unfolding finished_crawl
  by (rule descents_ok_recursive_scrape) (simp_all add: entry_ok_def)

lemma oldest_entry_crawl:
  "last (history (finished (scrape_website_to_file net writable start_url output_filename mp md dl)))
     = (Enter start_url 0, globals fresh)"
proof -
  let ?b = "netloc (urlparse start_url)"
  let ?r1 = "snd (scrape_page net start_url md 0 mp fresh)"
  obtain new where h: "history ?r1 = new @ (Enter start_url 0, globals fresh) # history fresh"
    using history_scrape_page_shape by blast
  have "extends ?r1 (recursive_scrape net ?b start_url md 0 mp dl fresh)"
    by (rule extends_page_to_end)
  then obtain new' where "history (recursive_scrape net ?b start_url md 0 mp dl fresh)
      = new' @ history ?r1" by (auto simp: extends_def)
  with h show ?thesis unfolding finished_crawl by simp
qed

section \<open>Links are recorded up to the break of the loop\<close>

lemma discovered_extends:
  "extends r r' \<Longrightarrow> all_discovered_urls (globals r) \<subseteq> all_discovered_urls (globals r')"
  by (simp add: extends_def)

lemma no_break_scrape_page:
  "(Break j, s) \<notin> set (added r (snd (scrape_page net u md d mp r)))"
  using events_added_scrape_page [of r net u md d mp] by (auto simp: image_iff)

lemma breaks_recursive_scrape:
  "\<forall>j s. (Break j, s) \<in> set (added r (recursive_scrape net b u md d mp dl r)) \<longrightarrow> d \<le> j"
  and links_recorded_unless_break:
  "(\<forall>j s. (Break j, s) \<in> set (added r (scrape_links net b ls md d mp dl r)) \<longrightarrow> d \<le> j)
   \<and> ((\<forall>s. (Break d, s) \<notin> set (added r (scrape_links net b ls md d mp dl r)))
        \<longrightarrow> set ls \<subseteq> all_discovered_urls (globals (scrape_links net b ls md d mp dl r)))"
proof (induction net b u md d mp dl r and net b ls md d mp dl r rule: crawl_induct)
  case (page net b u md d mp dl r)
  let ?r1 = "snd (scrape_page net u md d mp r)"
  show ?case
  proof (cases "fst (scrape_page net u md d mp r)")
    case None
    then show ?thesis
      using no_break_scrape_page [of _ _ r net u md d mp]
      by (simp add: recursive_scrape_no_links)
  next
    case (Some links)
    have "added r (scrape_links net b links md d mp dl ?r1)
            = added ?r1 (scrape_links net b links md d mp dl ?r1) @ added r ?r1"
      by (rule added_trans [OF extends_scrape_page extends_scrape_links])
    then show ?thesis
      unfolding recursive_scrape_links [OF Some]
      using page.IH [OF Some] no_break_scrape_page [of _ _ r net u md d mp]
      by auto
  qed
next
  case (nil net b md d mp dl r)
  show ?case by simp
next
  case (skip net b l ls md d mp dl r)
  let ?r1 = "discover l r"
  let ?r' = "scrape_links net b ls md d mp dl ?r1"
  have a: "added r ?r' = added ?r1 ?r' @ added r ?r1"
    by (rule added_trans [OF extends_discover extends_scrape_links])
  have "l \<in> all_discovered_urls (globals ?r1)" by simp
  then have l: "l \<in> all_discovered_urls (globals ?r')"
    using discovered_extends [OF extends_scrape_links [of ?r1 net b ls md d mp dl]] by blast
  show ?case
    unfolding scrape_links_skip [OF skip.hyps] a
    using skip.IH l by auto
next
  case (break net b l ls md d mp dl r)
  have "extends r (emit (Break d) (discover l r))"
    by (rule extends_trans [OF extends_discover extends_emit])
  have a: "added r (emit (Break d) (discover l r))
             = added (discover l r) (emit (Break d) (discover l r)) @ added r (discover l r)"
    by (rule added_trans [OF extends_discover extends_emit])
  show ?case
    unfolding scrape_links_break [OF break.hyps] a by simp
next
  case (descend net b l ls md d mp dl r)
  let ?r2 = "sleep dl (discover l r)"
  let ?r3 = "recursive_scrape net b l md (d + 1) mp dl ?r2"
  let ?r' = "scrape_links net b ls md d mp dl ?r3"
  have e2: "extends r ?r2"
    by (rule extends_trans [OF extends_discover extends_sleep])
  have a2: "added r ?r2 = added (discover l r) ?r2 @ added r (discover l r)"
    by (rule added_trans [OF extends_discover extends_sleep])
  have e3: "extends r ?r3"
    by (rule extends_trans [OF e2 extends_recursive_scrape])
  have a3: "added r ?r3 = added ?r2 ?r3 @ added r ?r2"
    by (rule added_trans [OF e2 extends_recursive_scrape])
  have a: "added r ?r' = added ?r3 ?r' @ added r ?r3"
    by (rule added_trans [OF e3 extends_scrape_links])
  have "extends (discover l r) ?r'"
    by (rule extends_trans [OF extends_sleep
          extends_trans [OF extends_recursive_scrape extends_scrape_links]])
  from discovered_extends [OF this]
  have l: "l \<in> all_discovered_urls (globals ?r')" by auto
  have deeper: "\<forall>j s. (Break j, s) \<in> set (added ?r2 ?r3) \<longrightarrow> d + 1 \<le> j"
    by (rule descend.IH(1))
  show ?case
    unfolding scrape_links_descend [OF descend.hyps] a a3 a2
    using descend.IH(2) deeper l by auto
qed

text \<open>Every iteration of the link loop starts by recording its link.\<close>

lemma extends_first_link:
  "extends (discover l r) (scrape_links net b (l # ls) md d mp dl r)"
proof (cases "may_descend b md d l (globals r)")
  case False
  show ?thesis
    unfolding scrape_links_skip [OF False] by (rule extends_scrape_links)
next
  case True
  show ?thesis
  proof (cases "mp \<le> int (length (all_extracted_content (globals r)))")
    case full: True
    show ?thesis
      unfolding scrape_links_break [OF True full] by simp
  next
    case room: False
    show ?thesis
      unfolding scrape_links_descend [OF True room]
      by (rule extends_trans [OF extends_sleep
            extends_trans [OF extends_recursive_scrape extends_scrape_links]])
  qed
qed

lemma added_first_link:
  "added r (scrape_links net b (l # ls) md d mp dl r)
     = added (discover l r) (scrape_links net b (l # ls) md d mp dl r)
       @ [(Discover l, globals (discover l r))]"
  using added_trans [OF extends_discover extends_first_link] by simp

lemma first_link_discover_event:
  "\<exists>s. (Discover l, s) \<in> set (added r (scrape_links net b (l # ls) md d mp dl r))"
  unfolding added_first_link by auto

lemma links_discover_events:
  "(\<forall>s. (Break d, s) \<notin> set (added r (scrape_links net b ls md d mp dl r))) \<Longrightarrow>
   \<forall>l \<in> set ls. \<exists>s. (Discover l, s) \<in> set (added r (scrape_links net b ls md d mp dl r))"
proof (induction ls arbitrary: r)
  case Nil
  show ?case by simp
next
  case (Cons l ls)
  let ?r' = "scrape_links net b (l # ls) md d mp dl r"
  have first: "\<exists>s. (Discover l, s) \<in> set (added r ?r')"
    by (rule first_link_discover_event)
  have rest: "\<forall>k \<in> set ls. \<exists>s. (Discover k, s) \<in> set (added r ?r')"
  proof (cases "may_descend b md d l (globals r)")
    case False
    let ?r1 = "discover l r"
    have eq: "?r' = scrape_links net b ls md d mp dl ?r1"
      by (rule scrape_links_skip [OF False])
    have a: "added r ?r' = added ?r1 ?r' @ added r ?r1"
      unfolding eq by (rule added_trans [OF extends_discover extends_scrape_links])
    have "\<forall>s. (Break d, s) \<notin> set (added ?r1 (scrape_links net b ls md d mp dl ?r1))"
      using Cons.prems a eq by auto
    from Cons.IH [OF this] show ?thesis
      using a eq by auto
  next
    case True
    show ?thesis
    proof (cases "mp \<le> int (length (all_extracted_content (globals r)))")
      case full: True
      have "?r' = emit (Break d) (discover l r)"
        by (rule scrape_links_break [OF True full])
      moreover have "added r (emit (Break d) (discover l r))
             = added (discover l r) (emit (Break d) (discover l r)) @ added r (discover l r)"
        by (rule added_trans [OF extends_discover extends_emit])
      ultimately have "(Break d, globals (discover l r)) \<in> set (added r ?r')"
        by simp
      with Cons.prems show ?thesis by blast
    next
      case room: False
      let ?r3 = "recursive_scrape net b l md (d + 1) mp dl (sleep dl (discover l r))"
      have eq: "?r' = scrape_links net b ls md d mp dl ?r3"
        by (rule scrape_links_descend [OF True room])
      have e3: "extends r ?r3"
        by (rule extends_trans [OF extends_discover
              extends_trans [OF extends_sleep extends_recursive_scrape]])
      have a: "added r ?r' = added ?r3 ?r' @ added r ?r3"
        unfolding eq by (rule added_trans [OF e3 extends_scrape_links])
      have "\<forall>s. (Break d, s) \<notin> set (added ?r3 (scrape_links net b ls md d mp dl ?r3))"
        using Cons.prems a eq by auto
      from Cons.IH [OF this] show ?thesis
        using a eq by auto
    qed
  qed
  from first rest show ?case by simp
qed

lemma uninterrupted_added: "uninterrupted (history r') \<Longrightarrow> uninterrupted (added r r')"
  using added_subset_history [of r r'] by (auto simp: uninterrupted_def list_all_iff)

section \<open>The example site\<close>

lemma site_kept:
  "keep_link ''https://a.test/p1'' \<and> keep_link ''https://ext.test/x''
   \<and> keep_link ''https://a.test/f.pdf'' \<and> keep_link ''https://a.test/''"
  by code_simp

lemma site_normalized:
  "normalized_url ''https://a.test/p1'' = ''https://a.test/p1''
   \<and> normalized_url ''https://ext.test/x'' = ''https://ext.test/x''
   \<and> normalized_url ''https://a.test/f.pdf'' = ''https://a.test/f.pdf''
   \<and> normalized_url ''https://a.test/'' = ''https://a.test/''"
  by code_simp

lemma site_hosts:
  "netloc (urlparse ''https://a.test/'') = ''a.test''
   \<and> netloc (urlparse ''https://a.test/p1'') = ''a.test''
   \<and> netloc (urlparse ''https://ext.test/x'') = ''ext.test''
   \<and> netloc (urlparse ''https://a.test/f.pdf'') = ''a.test''"
  by code_simp

lemma site_files:
  "\<not> is_file_url ''https://a.test/'' \<and> \<not> is_file_url ''https://a.test/p1''
   \<and> \<not> is_file_url ''https://ext.test/x'' \<and> is_file_url ''https://a.test/f.pdf''"
  by code_simp

lemma site_start:
  "get_page_content site ''https://a.test/'' 3 1
     = (Some (''home'', [''https://a.test/p1'', ''https://ext.test/x'', ''https://a.test/f.pdf'']),
        [HttpGet ''https://a.test/'' 10])"
  by (rule requests_succeed_at_once)
     (simp add: site_def extract_links_def site_kept site_normalized)

lemma site_p1:
  "get_page_content site ''https://a.test/p1'' 3 1
     = (Some (''page one'', [''https://a.test/'']), [HttpGet ''https://a.test/p1'' 10])"
  by (rule requests_succeed_at_once)
     (simp add: site_def extract_links_def site_kept site_normalized)

lemmas site_facts = site_hosts site_files site_start site_p1

lemma site_parsed:
  "\<not> urlparse_may_raise ''https://a.test/'' \<and> \<not> urlparse_may_raise ''https://a.test/p1''
   \<and> \<not> urlparse_may_raise ''https://ext.test/x''
   \<and> \<not> urlparse_may_raise ''https://a.test/f.pdf''"
  by code_simp

lemma site_crawl_1_50:
  "finished (scrape_website_to_file site (\<lambda>f. True) ''https://a.test/''
       ''discovered_urls.txt'' 50 1 0.5)
   = discover ''https://a.test/f.pdf'' (discover ''https://ext.test/x''
       (discover ''https://a.test/''
          (snd (scrape_page site ''https://a.test/p1'' 1 1 50
             (sleep 0.5 (discover ''https://a.test/p1''
                (snd (scrape_page site ''https://a.test/'' 1 0 50 fresh))))))))"
  unfolding finished_crawl
  by (simp add: site_facts recursive_scrape_links recursive_scrape_no_links fst_scrape_page
        scrape_links_descend scrape_links_skip may_descend_def extracted_scrape_page
        should_scrape_content_def)

lemma site_trace_1_50:
  "trace (finished (scrape_website_to_file site (\<lambda>f. True) ''https://a.test/''
       ''discovered_urls.txt'' 50 1 0.5))
   = [Enter ''https://a.test/'' 0, Discover ''https://a.test/'', Visit ''https://a.test/'',
      HttpGet ''https://a.test/'' 10, Extract ''https://a.test/'',
      Discover ''https://a.test/p1'', Sleep 0.5,
      Enter ''https://a.test/p1'' 1, Discover ''https://a.test/p1'', Visit ''https://a.test/p1'',
      HttpGet ''https://a.test/p1'' 10, Extract ''https://a.test/p1'',
      Discover ''https://a.test/'',
      Discover ''https://ext.test/x'', Discover ''https://a.test/f.pdf'']"
  unfolding site_crawl_1_50
  by (simp add: trace_scrape_page site_facts should_scrape_content_def extracted_scrape_page)

lemma site_crawl_3_1:
  "finished (scrape_website_to_file site (\<lambda>f. True) ''https://a.test/''
       ''discovered_urls.txt'' 1 3 0.5)
   = emit (Break 0) (discover ''https://a.test/p1''
       (snd (scrape_page site ''https://a.test/'' 3 0 1 fresh)))"
  unfolding finished_crawl
  by (simp add: site_facts recursive_scrape_links fst_scrape_page
        scrape_links_break may_descend_def extracted_scrape_page should_scrape_content_def)

lemma event_added_in_trace: "(e, s) \<in> set (added r r') \<Longrightarrow> e \<in> set (trace r')"
  using added_subset_history [of r r'] by (force simp: trace_def)

lemma events_of_history: "map fst (history r) = rev (trace r)"
  by (simp add: trace_def)

lemma site_loop_1_50:
  "finished (scrape_website_to_file site (\<lambda>f. True) ''https://a.test/''
       ''discovered_urls.txt'' 50 1 0.5)
   = scrape_links site ''a.test''
       [''https://a.test/p1'', ''https://ext.test/x'', ''https://a.test/f.pdf''] 1 0 50 0.5
       (snd (scrape_page site ''https://a.test/'' 1 0 50 fresh))"
  unfolding finished_crawl
  by (simp add: site_facts recursive_scrape_links fst_scrape_page)

lemma site_uninterrupted_1_50:
  "uninterrupted (history (finished (scrape_website_to_file site writable ''https://a.test/''
       ''discovered_urls.txt'' 50 1 0.5)))"
proof -
  have f: "finished (scrape_website_to_file site writable ''https://a.test/''
          ''discovered_urls.txt'' 50 1 0.5)
        = finished (scrape_website_to_file site (\<lambda>f. True) ''https://a.test/''
          ''discovered_urls.txt'' 50 1 0.5)"
    by (simp add: finished_crawl)
  show ?thesis
    unfolding f uninterrupted_trace site_trace_1_50
    by (simp add: site_parsed sleep_may_raise_def nesting_may_raise_def)
qed




section \<open>The links of a page\<close>

text \<open>
  Claim C3, as amended. For the links returned by a fetch, gone through by the link loop
  at depth \<open>current_depth\<close>:
  \<^item> every link is recorded (a \<open>Discover\<close> event of this loop, and the link in
    \<open>discovered\<close> at the end), provided no exception leaves the loop and the loop does not
    end early (no \<open>Break\<close> at its depth);
  \<^item> for a link that \<^verbatim>\<open>urlparse\<close> takes: if it is external, a file, already visited, or
    met at the maximum depth, it is recorded and the loop goes on without descending; if
    it is internal, not a file and not visited, met below the maximum depth, and the
    extracted content has reached the limit, it is recorded and the loop ends there,
    with none of the later links recorded; if the limit is not reached, it is recorded,
    then the loop sleeps the politeness delay (a length that \<^verbatim>\<open>time.sleep\<close> sleeps) and
    descends at \<open>current_depth + 1\<close> (a depth within the recursion limit), and goes on
    afterwards;
  \<^item> in every crawl, the oldest event is the entry for the start URL at depth \<open>0\<close>, and
    every other entry into \<^verbatim>\<open>_recursive_scrape\<close> comes right after a sleep of the
    politeness delay and is for a URL whose host is the base host, that is not a file
    and not visited at that moment, at a depth between \<open>1\<close> and \<open>max_depth\<close>, with the
    extracted content below the limit at that moment. So a link with another host, or
    with a file extension, is never descended into, and nothing is descended into once
    the limit is reached.
\<close>

theorem links_recorded_and_descents:
  "(let r' = scrape_links net base_url_netloc links max_depth current_depth
               scrape_content_limit politeness_delay r
    in uninterrupted (added r r') \<and> (\<forall>s. (Break current_depth, s) \<notin> set (added r r'))
       \<longrightarrow> set links \<subseteq> all_discovered_urls (globals r')
           \<and> (\<forall>l \<in> set links. \<exists>s. (Discover l, s) \<in> set (added r r')))
   \<and> (let is_internal = (netloc (urlparse link) = base_url_netloc);
          is_file = is_file_url link;
          descendable = (is_internal \<and> \<not> is_file \<and> link \<notin> visited_urls (globals r)
                         \<and> current_depth < max_depth);
          full = (scrape_content_limit \<le> int (length (all_extracted_content (globals r))));
          loop = scrape_links net base_url_netloc (link # links) max_depth current_depth
                   scrape_content_limit politeness_delay r
      in \<not> urlparse_may_raise link \<longrightarrow>
           (\<not> descendable \<longrightarrow>
              loop = scrape_links net base_url_netloc links max_depth current_depth
                       scrape_content_limit politeness_delay (discover link r))
           \<and> (descendable \<and> full \<longrightarrow> loop = emit (Break current_depth) (discover link r))
           \<and> (descendable \<and> \<not> full \<and> \<not> sleep_may_raise politeness_delay
                \<and> \<not> nesting_may_raise (current_depth + 1) \<longrightarrow>
                loop = scrape_links net base_url_netloc links max_depth current_depth
                         scrape_content_limit politeness_delay
                         (recursive_scrape net base_url_netloc link max_depth
                            (current_depth + 1) scrape_content_limit politeness_delay
                            (sleep politeness_delay (discover link r)))))
   \<and> (let h = history (finished (scrape_website_to_file net writable start_url output_filename
                   scrape_content_limit max_depth politeness_delay))
      in (\<not> urlparse_may_raise start_url \<longrightarrow> last h = (Enter start_url 0, globals fresh))
         \<and> (\<forall>i u k g. Suc i < length h \<and> h ! i = (Enter u k, g) \<longrightarrow>
               fst (h ! Suc i) = Sleep politeness_delay
               \<and> netloc (urlparse u) = netloc (urlparse start_url)
               \<and> \<not> is_file_url u
               \<and> u \<notin> visited_urls g
               \<and> 0 < k \<and> k \<le> max_depth
               \<and> int (length (all_extracted_content g)) < scrape_content_limit))"
proof -
  let ?h = "history (finished (scrape_website_to_file net writable start_url output_filename
                   scrape_content_limit max_depth politeness_delay))"
  let ?r' = "scrape_links net base_url_netloc links max_depth current_depth
               scrape_content_limit politeness_delay r"
  have a: "set links \<subseteq> all_discovered_urls (globals ?r')
           \<and> (\<forall>l \<in> set links. \<exists>s. (Discover l, s) \<in> set (added r ?r'))"
    if "\<forall>s. (Break current_depth, s) \<notin> set (added r ?r')"
    using that links_recorded_unless_break
            [where d = current_depth and r = r and net = net and b = base_url_netloc
               and ls = links and md = max_depth and mp = scrape_content_limit
               and dl = politeness_delay]
          links_discover_events [OF that]
    by blast
  have b1: "scrape_links net base_url_netloc (link # links) max_depth current_depth
              scrape_content_limit politeness_delay r
            = scrape_links net base_url_netloc links max_depth current_depth
                scrape_content_limit politeness_delay (discover link r)"
    if "\<not> (netloc (urlparse link) = base_url_netloc \<and> \<not> is_file_url link
            \<and> link \<notin> visited_urls (globals r) \<and> current_depth < max_depth)"
    using that by (intro scrape_links_skip) (simp add: may_descend_def)
  have b2: "scrape_links net base_url_netloc (link # links) max_depth current_depth
              scrape_content_limit politeness_delay r
            = emit (Break current_depth) (discover link r)"
    if "netloc (urlparse link) = base_url_netloc \<and> \<not> is_file_url link
            \<and> link \<notin> visited_urls (globals r) \<and> current_depth < max_depth"
       "scrape_content_limit \<le> int (length (all_extracted_content (globals r)))"
    using that by (intro scrape_links_break) (simp_all add: may_descend_def)
  have b3: "scrape_links net base_url_netloc (link # links) max_depth current_depth
              scrape_content_limit politeness_delay r
            = scrape_links net base_url_netloc links max_depth current_depth
                 scrape_content_limit politeness_delay
                 (recursive_scrape net base_url_netloc link max_depth
                    (current_depth + 1) scrape_content_limit politeness_delay
                    (sleep politeness_delay (discover link r)))"
    if "netloc (urlparse link) = base_url_netloc \<and> \<not> is_file_url link
            \<and> link \<notin> visited_urls (globals r) \<and> current_depth < max_depth"
       "\<not> scrape_content_limit \<le> int (length (all_extracted_content (globals r)))"
    using that by (intro scrape_links_descend) (simp_all add: may_descend_def)
  have d: "fst (?h ! Suc i) = Sleep politeness_delay
               \<and> netloc (urlparse u) = netloc (urlparse start_url)
               \<and> \<not> is_file_url u
               \<and> u \<notin> visited_urls g
               \<and> 0 < k \<and> k \<le> max_depth
               \<and> int (length (all_extracted_content g)) < scrape_content_limit"
    if "Suc i < length ?h" "?h ! i = (Enter u k, g)" for i u k g
    using descents_ok_nth [OF descents_ok_crawl that] by simp
  show ?thesis
    unfolding Let_def
    using a b1 b2 b3 d oldest_entry_crawl
    by (intro conjI impI allI) (simp_all, blast+)
qed

theorem links_recorded_and_descents_witness:
  "uninterrupted (added (snd (scrape_page site ''https://a.test/'' 1 0 50 fresh)) (scrape_links site ''a.test''
        [''https://a.test/p1'', ''https://ext.test/x'', ''https://a.test/f.pdf'']
        1 0 50 0.5 (snd (scrape_page site ''https://a.test/'' 1 0 50 fresh))))
   \<and> (\<forall>s. (Break 0, s) \<notin> set (added (snd (scrape_page site ''https://a.test/'' 1 0 50 fresh)) (scrape_links site ''a.test''
        [''https://a.test/p1'', ''https://ext.test/x'', ''https://a.test/f.pdf'']
        1 0 50 0.5 (snd (scrape_page site ''https://a.test/'' 1 0 50 fresh)))))
   \<and> {''https://a.test/p1'', ''https://ext.test/x'', ''https://a.test/f.pdf''}
       \<subseteq> all_discovered_urls (globals (scrape_links site ''a.test''
        [''https://a.test/p1'', ''https://ext.test/x'', ''https://a.test/f.pdf'']
        1 0 50 0.5 (snd (scrape_page site ''https://a.test/'' 1 0 50 fresh))))
   \<and> (\<exists>s. (Discover ''https://a.test/p1'', s) \<in> set (added (snd (scrape_page site ''https://a.test/'' 1 0 50 fresh)) (scrape_links site ''a.test''
        [''https://a.test/p1'', ''https://ext.test/x'', ''https://a.test/f.pdf'']
        1 0 50 0.5 (snd (scrape_page site ''https://a.test/'' 1 0 50 fresh)))))
   \<and> (\<exists>s. (Discover ''https://ext.test/x'', s) \<in> set (added (snd (scrape_page site ''https://a.test/'' 1 0 50 fresh)) (scrape_links site ''a.test''
        [''https://a.test/p1'', ''https://ext.test/x'', ''https://a.test/f.pdf'']
        1 0 50 0.5 (snd (scrape_page site ''https://a.test/'' 1 0 50 fresh)))))
   \<and> (\<exists>s. (Discover ''https://a.test/f.pdf'', s) \<in> set (added (snd (scrape_page site ''https://a.test/'' 1 0 50 fresh)) (scrape_links site ''a.test''
        [''https://a.test/p1'', ''https://ext.test/x'', ''https://a.test/f.pdf'']
        1 0 50 0.5 (snd (scrape_page site ''https://a.test/'' 1 0 50 fresh)))))
   \<and> \<not> urlparse_may_raise ''https://ext.test/x''
   \<and> netloc (urlparse ''https://ext.test/x'') \<noteq> ''a.test''
   \<and> scrape_links site ''a.test'' [''https://ext.test/x''] 1 0 50 0.5 (snd (scrape_page site ''https://a.test/'' 1 0 50 fresh))
       = discover ''https://ext.test/x'' (snd (scrape_page site ''https://a.test/'' 1 0 50 fresh))
   \<and> \<not> urlparse_may_raise ''https://a.test/f.pdf''
   \<and> is_file_url ''https://a.test/f.pdf''
   \<and> scrape_links site ''a.test'' [''https://a.test/f.pdf''] 1 0 50 0.5 (snd (scrape_page site ''https://a.test/'' 1 0 50 fresh))
       = discover ''https://a.test/f.pdf'' (snd (scrape_page site ''https://a.test/'' 1 0 50 fresh))
   \<and> \<not> urlparse_may_raise ''https://a.test/p1''
   \<and> \<not> sleep_may_raise 0.5
   \<and> \<not> nesting_may_raise (0 + 1)
   \<and> netloc (urlparse ''https://a.test/p1'') = ''a.test''
   \<and> \<not> is_file_url ''https://a.test/p1''
   \<and> ''https://a.test/p1'' \<notin> visited_urls (globals (snd (scrape_page site ''https://a.test/'' 1 0 50 fresh)))
   \<and> \<not> 50 \<le> int (length (all_extracted_content (globals (snd (scrape_page site ''https://a.test/'' 1 0 50 fresh)))))
   \<and> scrape_links site ''a.test''
        [''https://a.test/p1'', ''https://ext.test/x'', ''https://a.test/f.pdf''] 1 0 50 0.5 (snd (scrape_page site ''https://a.test/'' 1 0 50 fresh))
       = scrape_links site ''a.test'' [''https://ext.test/x'', ''https://a.test/f.pdf'']
           1 0 50 0.5
           (recursive_scrape site ''a.test'' ''https://a.test/p1'' 1 1 50 0.5
              (sleep 0.5 (discover ''https://a.test/p1'' (snd (scrape_page site ''https://a.test/'' 1 0 50 fresh)))))
   \<and> ''https://a.test/p1'' \<notin> visited_urls (globals (snd (scrape_page site ''https://a.test/'' 3 0 1 fresh)))
   \<and> 1 \<le> int (length (all_extracted_content (globals (snd (scrape_page site ''https://a.test/'' 3 0 1 fresh)))))
   \<and> scrape_links site ''a.test''
        [''https://a.test/p1'', ''https://ext.test/x'', ''https://a.test/f.pdf''] 3 0 1 0.5 (snd (scrape_page site ''https://a.test/'' 3 0 1 fresh))
       = emit (Break 0) (discover ''https://a.test/p1'' (snd (scrape_page site ''https://a.test/'' 3 0 1 fresh)))
   \<and> \<not> urlparse_may_raise ''https://a.test/''
   \<and> last (history (finished (scrape_website_to_file site (\<lambda>f. True) ''https://a.test/''
        ''discovered_urls.txt'' 50 1 0.5))) = (Enter ''https://a.test/'' 0, globals fresh)
   \<and> Suc 7 < length (history (finished (scrape_website_to_file site (\<lambda>f. True) ''https://a.test/''
        ''discovered_urls.txt'' 50 1 0.5)))
   \<and> fst ((history (finished (scrape_website_to_file site (\<lambda>f. True) ''https://a.test/''
        ''discovered_urls.txt'' 50 1 0.5))) ! 7) = Enter ''https://a.test/p1'' 1
   \<and> fst ((history (finished (scrape_website_to_file site (\<lambda>f. True) ''https://a.test/''
        ''discovered_urls.txt'' 50 1 0.5))) ! Suc 7) = Sleep 0.5
   \<and> ''https://a.test/p1'' \<notin> visited_urls (snd ((history (finished (scrape_website_to_file site (\<lambda>f. True) ''https://a.test/''
        ''discovered_urls.txt'' 50 1 0.5))) ! 7))
   \<and> int (length (all_extracted_content (snd ((history (finished (scrape_website_to_file site (\<lambda>f. True) ''https://a.test/''
        ''discovered_urls.txt'' 50 1 0.5))) ! 7)))) < 50"
proof -
  let ?c = "scrape_website_to_file site (\<lambda>f. True) ''https://a.test/''
              ''discovered_urls.txt'' 50 1 0.5"
  let ?h = "history (finished ?c)"
  let ?r1 = "snd (scrape_page site ''https://a.test/'' 1 0 50 fresh)"
  let ?r1b = "snd (scrape_page site ''https://a.test/'' 3 0 1 fresh)"
  let ?r2 = "scrape_links site ''a.test''
               [''https://a.test/p1'', ''https://ext.test/x'', ''https://a.test/f.pdf'']
               1 0 50 0.5 ?r1"
  have nb: "\<forall>s. (Break 0, s) \<notin> set (added ?r1 ?r2)"
  proof (intro allI notI)
    fix s assume "(Break 0, s) \<in> set (added ?r1 ?r2)"
    from event_added_in_trace [OF this] show False
      unfolding site_loop_1_50 [symmetric] site_trace_1_50 by simp
  qed
  have un: "uninterrupted (added ?r1 ?r2)"
    using uninterrupted_added [OF site_uninterrupted_1_50 [of "\<lambda>f. True"], of ?r1]
    unfolding site_loop_1_50 .
  have m: "map fst ?h = rev (trace (finished ?c))" by (rule events_of_history)
  have len: "length ?h = 15"
    using arg_cong [OF m, of length] unfolding site_trace_1_50 by simp
  have "fst (?h ! 7) = Enter ''https://a.test/p1'' 1"
    using arg_cong [OF m, of "\<lambda>xs. xs ! 7"] len unfolding site_trace_1_50 by simp
  then have e7: "?h ! 7 = (Enter ''https://a.test/p1'' 1, snd (?h ! 7))"
    by (simp add: prod_eq_iff)
  have v1: "''https://a.test/p1'' \<notin> visited_urls (globals ?r1)"
    and c1: "\<not> 50 \<le> int (length (all_extracted_content (globals ?r1)))"
    and v1b: "''https://a.test/p1'' \<notin> visited_urls (globals ?r1b)"
    and c1b: "1 \<le> int (length (all_extracted_content (globals ?r1b)))"
    by (simp_all add: extracted_scrape_page site_facts should_scrape_content_def)
  have sl: "\<not> sleep_may_raise 0.5" "\<not> nesting_may_raise (0 + 1)"
    by (simp_all add: sleep_may_raise_def nesting_may_raise_def)
  have ne: "netloc (urlparse ''https://ext.test/x'') \<noteq> ''a.test''"
    by (simp add: site_facts)
  note recorded = links_recorded_and_descents
            [where current_depth = 0 and r = ?r1 and net = site and base_url_netloc = "''a.test''"
               and links = "[''https://a.test/p1'', ''https://ext.test/x'', ''https://a.test/f.pdf'']"
               and max_depth = 1 and scrape_content_limit = 50 and politeness_delay = "0.5"
               and writable = "\<lambda>f. True" and start_url = "''https://a.test/''"
               and output_filename = "''discovered_urls.txt''" and link = "''https://a.test/''",
             unfolded Let_def]
  note external = links_recorded_and_descents
            [where current_depth = 0 and r = ?r1 and net = site and base_url_netloc = "''a.test''"
               and links = "[]" and link = "''https://ext.test/x''"
               and max_depth = 1 and scrape_content_limit = 50 and politeness_delay = "0.5"
               and writable = "\<lambda>f. True" and start_url = "''https://a.test/''"
               and output_filename = "''discovered_urls.txt''",
             unfolded Let_def]
  note pdf = links_recorded_and_descents
            [where current_depth = 0 and r = ?r1 and net = site and base_url_netloc = "''a.test''"
               and links = "[]" and link = "''https://a.test/f.pdf''"
               and max_depth = 1 and scrape_content_limit = 50 and politeness_delay = "0.5"
               and writable = "\<lambda>f. True" and start_url = "''https://a.test/''"
               and output_filename = "''discovered_urls.txt''",
             unfolded Let_def]
  note internal = links_recorded_and_descents
            [where current_depth = 0 and r = ?r1 and net = site and base_url_netloc = "''a.test''"
               and links = "[''https://ext.test/x'', ''https://a.test/f.pdf'']"
               and link = "''https://a.test/p1''"
               and max_depth = 1 and scrape_content_limit = 50 and politeness_delay = "0.5"
               and writable = "\<lambda>f. True" and start_url = "''https://a.test/''"
               and output_filename = "''discovered_urls.txt''",
             unfolded Let_def]
  note limit = links_recorded_and_descents
            [where current_depth = 0 and r = ?r1b and net = site and base_url_netloc = "''a.test''"
               and links = "[''https://ext.test/x'', ''https://a.test/f.pdf'']"
               and link = "''https://a.test/p1''"
               and max_depth = 3 and scrape_content_limit = 1 and politeness_delay = "0.5"
               and writable = "\<lambda>f. True" and start_url = "''https://a.test/''"
               and output_filename = "''discovered_urls.txt''",
             unfolded Let_def]
  from recorded nb un
  have rec: "{''https://a.test/p1'', ''https://ext.test/x'', ''https://a.test/f.pdf''}
               \<subseteq> all_discovered_urls (globals ?r2)"
    and ev: "(\<exists>s. (Discover ''https://a.test/p1'', s) \<in> set (added ?r1 ?r2))
             \<and> (\<exists>s. (Discover ''https://ext.test/x'', s) \<in> set (added ?r1 ?r2))
             \<and> (\<exists>s. (Discover ''https://a.test/f.pdf'', s) \<in> set (added ?r1 ?r2))"
    by simp_all
  from external ne site_parsed
  have skip1: "scrape_links site ''a.test'' [''https://ext.test/x''] 1 0 50 0.5 ?r1
                = discover ''https://ext.test/x'' ?r1"
    by simp
  from pdf site_files site_parsed
  have skip2: "scrape_links site ''a.test'' [''https://a.test/f.pdf''] 1 0 50 0.5 ?r1
                = discover ''https://a.test/f.pdf'' ?r1"
    by simp
  from internal site_hosts site_files site_parsed v1 c1 sl
  have desc: "scrape_links site ''a.test''
        [''https://a.test/p1'', ''https://ext.test/x'', ''https://a.test/f.pdf''] 1 0 50 0.5 ?r1
       = scrape_links site ''a.test'' [''https://ext.test/x'', ''https://a.test/f.pdf'']
           1 0 50 0.5
           (recursive_scrape site ''a.test'' ''https://a.test/p1'' 1 1 50 0.5
              (sleep 0.5 (discover ''https://a.test/p1'' ?r1)))"
    by simp
  from limit site_hosts site_files site_parsed v1b c1b
  have brk: "scrape_links site ''a.test''
        [''https://a.test/p1'', ''https://ext.test/x'', ''https://a.test/f.pdf''] 3 0 1 0.5 ?r1b
       = emit (Break 0) (discover ''https://a.test/p1'' ?r1b)"
    by simp
  from recorded site_parsed
  have oldest: "last ?h = (Enter ''https://a.test/'' 0, globals fresh)"
    by blast
  from recorded have "\<forall>i u k g. Suc i < length ?h \<and> ?h ! i = (Enter u k, g) \<longrightarrow>
               fst (?h ! Suc i) = Sleep 0.5
               \<and> netloc (urlparse u) = netloc (urlparse ''https://a.test/'')
               \<and> \<not> is_file_url u
               \<and> u \<notin> visited_urls g
               \<and> 0 < k \<and> k \<le> 1
               \<and> int (length (all_extracted_content g)) < 50"
    by blast
  from this [rule_format, of 7 "''https://a.test/p1''" 1 "snd (?h ! 7)"] len e7
  have d: "fst (?h ! Suc 7) = Sleep 0.5
           \<and> ''https://a.test/p1'' \<notin> visited_urls (snd (?h ! 7))
           \<and> int (length (all_extracted_content (snd (?h ! 7)))) < 50"
    by simp
  from e7 have f7: "fst (?h ! 7) = Enter ''https://a.test/p1'' 1"
    by (simp add: prod_eq_iff)
  show ?thesis
    using un nb rec ev site_parsed ne skip1 site_files skip2 sl site_hosts v1 c1 desc
          v1b c1b brk oldest len f7 d
    by simp
qed

text \<open>
  Claim C3 as stated fails on the example of the specification with a page limit of one:
  the fetch of the start page returns three links, the loop ends at the first, and the
  external link and the file are not in \<open>discovered\<close> at the end.
\<close>

theorem links_recorded_counterexample:
  "uninterrupted (history (finished (scrape_website_to_file site (\<lambda>f. True) ''https://a.test/''
              ''discovered_urls.txt'' 1 3 0.5)))
   \<and> fst (get_page_content site ''https://a.test/'' 3 1)
     = Some (''home'', [''https://a.test/p1'', ''https://ext.test/x'', ''https://a.test/f.pdf''])
   \<and> trace (finished (scrape_website_to_file site (\<lambda>f. True) ''https://a.test/''
              ''discovered_urls.txt'' 1 3 0.5))
       = [Enter ''https://a.test/'' 0, Discover ''https://a.test/'', Visit ''https://a.test/'',
          HttpGet ''https://a.test/'' 10, Extract ''https://a.test/'',
          Discover ''https://a.test/p1'', Break 0]
   \<and> ''https://ext.test/x'' \<notin> set (discovered_urls
         (scrape_website_to_file site (\<lambda>f. True) ''https://a.test/''
            ''discovered_urls.txt'' 1 3 0.5))
   \<and> ''https://a.test/f.pdf'' \<notin> set (discovered_urls
         (scrape_website_to_file site (\<lambda>f. True) ''https://a.test/''
            ''discovered_urls.txt'' 1 3 0.5))"
  unfolding uninterrupted_trace set_discovered_urls_crawl site_crawl_3_1
  by (simp add: site_facts site_parsed trace_scrape_page should_scrape_content_def
        nesting_may_raise_def)

section \<open>One call of the Traversal Engine\<close>


section \<open>Termination\<close>

lemma bounded_agrees:
  "\<forall>k. nat (md - d) < k \<longrightarrow>
     recursive_scrape_bounded k net b u md d mp dl r
       = Some (recursive_scrape net b u md d mp dl r)"
  and bounded_links_agree:
  "\<forall>k. nat (md - d) \<le> k \<longrightarrow>
     scrape_links_bounded k net b ls md d mp dl r
       = Some (scrape_links net b ls md d mp dl r)"
proof (induction net b u md d mp dl r and net b ls md d mp dl r rule: crawl_induct)
  case (page net b u md d mp dl r)
  show ?case
  proof (intro allI impI)
    fix k assume "nat (md - d) < k"
    then obtain k' where k: "k = Suc k'" and k': "nat (md - d) \<le> k'"
      by (cases k) auto
    obtain fl r1 where sp: "scrape_page net u md d mp r = (fl, r1)" by force
    show "recursive_scrape_bounded k net b u md d mp dl r
            = Some (recursive_scrape net b u md d mp dl r)"
    proof (cases fl)
      case None
      with sp show ?thesis by (simp add: k recursive_scrape_no_links)
    next
      case (Some links)
      with sp have f: "fst (scrape_page net u md d mp r) = Some links" by simp
      from page [OF f] k' sp Some show ?thesis
        by (simp add: k recursive_scrape_links [OF f])
    qed
  qed
next
  case (nil net b md d mp dl r)
  show ?case by simp
next
  case (skip net b l ls md d mp dl r)
  show ?case
    using skip.hyps skip.IH
    by (auto simp: scrape_links_skip Let_def may_descend_def)
next
  case (break net b l ls md d mp dl r)
  show ?case
    using break.hyps
    by (auto simp: scrape_links_break Let_def may_descend_def)
next
  case (descend net b l ls md d mp dl r)
  show ?case
  proof (intro allI impI)
    fix k assume k: "nat (md - d) \<le> k"
    from descend.hyps(1) have "d < md" by (simp add: may_descend_def)
    with k have "nat (md - (d + 1)) < k" by linarith
    with descend.IH(1) have a: "recursive_scrape_bounded k net b l md (d + 1) mp dl
              (sleep dl (discover l r))
          = Some (recursive_scrape net b l md (d + 1) mp dl (sleep dl (discover l r)))"
      by blast
    from descend.IH(2) k
    have b: "scrape_links_bounded k net b ls md d mp dl
               (recursive_scrape net b l md (d + 1) mp dl (sleep dl (discover l r)))
          = Some (scrape_links net b ls md d mp dl
               (recursive_scrape net b l md (d + 1) mp dl (sleep dl (discover l r))))"
      by blast
    show "scrape_links_bounded k net b (l # ls) md d mp dl r
            = Some (scrape_links net b (l # ls) md d mp dl r)"
      using descend.hyps a b
      by (auto simp: scrape_links_descend Let_def may_descend_def)
  qed
qed

section \<open>No URL is entered twice\<close>

lemma entered_urls_append [simp]:
  "entered_urls (xs @ ys) = entered_urls xs @ entered_urls ys"
  by (induction xs rule: entered_urls.induct) simp_all

lemma entered_urls_none:
  "(\<forall>e \<in> set es. \<forall>u k. e \<noteq> Enter u k) \<Longrightarrow> entered_urls es = []"
  by (induction es rule: entered_urls.induct) auto

lemma entered_urls_fetch [simp]: "entered_urls (snd (get_page_content net u 3 1)) = []"
  using events_get_page_content [of net u 3 1] by (intro entered_urls_none) auto

lemma entered_urls_scrape_page [simp]:
  "entered_urls (trace (snd (scrape_page net u md d mp r))) = entered_urls (trace r) @ [u]"
  by (simp add: trace_scrape_page split: option.split)

lemma entered_once_recursive_scrape:
  "entered_once r \<Longrightarrow> u \<notin> set (entered_urls (trace r)) \<Longrightarrow>
   entered_once (recursive_scrape net b u md d mp dl r)"
  and entered_once_scrape_links:
  "entered_once r \<Longrightarrow> entered_once (scrape_links net b ls md d mp dl r)"
proof (induction net b u md d mp dl r and net b ls md d mp dl r rule: crawl_induct)
  case (page net b u md d mp dl r)
  have r1: "entered_once (snd (scrape_page net u md d mp r))"
    using page.prems by (auto simp: entered_once_def)
  show ?case
  proof (cases "fst (scrape_page net u md d mp r)")
    case None
    with r1 show ?thesis by (simp add: recursive_scrape_no_links)
  next
    case (Some links)
    show ?thesis
      unfolding recursive_scrape_links [OF Some] by (rule page.IH [OF Some r1])
  qed
next
  case (nil net b md d mp dl r)
  then show ?case by simp
next
  case (skip net b l ls md d mp dl r)
  have "entered_once (discover l r)" using skip.prems by (simp add: entered_once_def)
  then show ?case
    unfolding scrape_links_skip [OF skip.hyps] by (rule skip.IH)
next
  case (break net b l ls md d mp dl r)
  show ?case
    unfolding scrape_links_break [OF break.hyps]
    using break.prems by (simp add: entered_once_def)
next
  case (descend net b l ls md d mp dl r)
  let ?r2 = "sleep dl (discover l r)"
  have a: "entered_once ?r2" using descend.prems by (simp add: entered_once_def)
  have b: "l \<notin> set (entered_urls (trace ?r2))"
    using descend.prems descend.hyps(1) by (auto simp: entered_once_def may_descend_def)
  show ?case
    unfolding scrape_links_descend [OF descend.hyps]
    by (rule descend.IH(2) [OF descend.IH(1) [OF a b]])
qed

lemma recursive_scrape_bounded_links:
  assumes "fst (scrape_page net u md d mp r) = Some links"
  shows "recursive_scrape_bounded (Suc k) net b u md d mp dl r
           = scrape_links_bounded k net b links md d mp dl (snd (scrape_page net u md d mp r))"
proof -
  obtain fl r1 where sp: "scrape_page net u md d mp r = (fl, r1)" by force
  with assms show ?thesis by simp
qed

lemma site_bounded_1:
  "recursive_scrape_bounded (Suc 0) site ''a.test'' ''https://a.test/'' 1 0 50 0.5 fresh = None"
proof -
  have f: "fst (scrape_page site ''https://a.test/'' 1 0 50 fresh)
             = Some [''https://a.test/p1'', ''https://ext.test/x'', ''https://a.test/f.pdf'']"
    by (simp add: fst_scrape_page site_facts)
  show ?thesis
    unfolding recursive_scrape_bounded_links [OF f]
    by (simp add: Let_def site_facts extracted_scrape_page should_scrape_content_def)
qed

lemma entered_once_fresh: "entered_once fresh"
  by (simp add: entered_once_def)

lemma enter_depths_crawl:
  assumes "0 \<le> md"
    and "(Enter u k, g) \<in> set (history (finished
           (scrape_website_to_file net writable start_url output_filename mp md dl)))"
  shows "0 \<le> k \<and> k \<le> md"
proof -
  let ?h = "history (finished
           (scrape_website_to_file net writable start_url output_filename mp md dl))"
  from assms(2) obtain i where i: "i < length ?h" and e: "?h ! i = (Enter u k, g)"
    by (auto simp: in_set_conv_nth)
  show ?thesis
  proof (cases "Suc i < length ?h")
    case True
    from descents_ok_nth [OF descents_ok_crawl True e] show ?thesis by simp
  next
    case False
    with i have "i = length ?h - 1" by simp
    with i e have "last ?h = (Enter u k, g)"
      by (metis last_conv_nth length_0_conv not_less_zero)
    with oldest_entry_crawl [of net writable start_url output_filename mp md dl] assms(1)
    show ?thesis by simp
  qed
qed

text \<open>
  Claim C7. The recursion terminates: run with a bound on the number of nested frames of
  \<^verbatim>\<open>_recursive_scrape\<close>, a call at depth \<open>current_depth\<close> returns, with the result of the
  unbounded definition, as soon as the bound exceeds \<open>max_depth - current_depth\<close>; for a
  crawl with \<open>max_depth \<ge> 0\<close>, \<open>max_depth + 1\<close> frames are enough. The pages of a network
  have finitely many links each, and nothing more is asked of the link graph. In such a
  crawl every entry into \<^verbatim>\<open>_recursive_scrape\<close> is at a depth between \<open>0\<close> and \<open>max_depth\<close>,
  and no URL is entered twice.
\<close>

theorem traversal_terminates:
  assumes "0 \<le> max_depth"
  shows "(\<forall>frames. nat (max_depth - current_depth) < frames \<longrightarrow>
            recursive_scrape_bounded frames net base_url_netloc current_url max_depth
                current_depth scrape_content_limit politeness_delay r
              = Some (recursive_scrape net base_url_netloc current_url max_depth
                        current_depth scrape_content_limit politeness_delay r))
         \<and> (let c = scrape_website_to_file net writable start_url output_filename
                      scrape_content_limit max_depth politeness_delay
            in recursive_scrape_bounded (nat max_depth + 1) net (netloc (urlparse start_url))
                   start_url max_depth 0 scrape_content_limit politeness_delay fresh
                 = Some (finished c)
               \<and> (\<forall>(e, g) \<in> set (history (finished c)).
                     \<forall>u k. e = Enter u k \<longrightarrow> 0 \<le> k \<and> k \<le> max_depth)
               \<and> distinct (entered_urls (trace (finished c))))"
proof -
  have a: "\<forall>frames. nat (max_depth - current_depth) < frames \<longrightarrow>
            recursive_scrape_bounded frames net base_url_netloc current_url max_depth
                current_depth scrape_content_limit politeness_delay r
              = Some (recursive_scrape net base_url_netloc current_url max_depth
                        current_depth scrape_content_limit politeness_delay r)"
    by (rule bounded_agrees)
  let ?c = "scrape_website_to_file net writable start_url output_filename
                      scrape_content_limit max_depth politeness_delay"
  have b: "recursive_scrape_bounded (nat max_depth + 1) net (netloc (urlparse start_url))
                   start_url max_depth 0 scrape_content_limit politeness_delay fresh
                 = Some (finished ?c)"
  proof -
    have "nat (max_depth - 0) < nat max_depth + 1" by simp
    from bounded_agrees [rule_format, OF this] show ?thesis
      unfolding finished_crawl .
  qed
  have c: "\<forall>(e, g) \<in> set (history (finished ?c)).
             \<forall>u k. e = Enter u k \<longrightarrow> 0 \<le> k \<and> k \<le> max_depth"
    using enter_depths_crawl [OF assms] by blast
  have "entered_once (finished ?c)"
    unfolding finished_crawl
    by (rule entered_once_recursive_scrape [OF entered_once_fresh]) simp
  then have d: "distinct (entered_urls (trace (finished ?c)))"
    by (simp add: entered_once_def)
  show ?thesis unfolding Let_def using a b c d by blast
qed

theorem traversal_terminates_witness:
  "(0::int) \<le> 1
   \<and> recursive_scrape_bounded 2 site ''a.test'' ''https://a.test/'' 1 0 50 0.5 fresh
       = Some (finished (scrape_website_to_file site (\<lambda>f. True) ''https://a.test/''
                 ''discovered_urls.txt'' 50 1 0.5))
   \<and> recursive_scrape_bounded 1 site ''a.test'' ''https://a.test/'' 1 0 50 0.5 fresh = None
   \<and> entered_urls (trace (finished (scrape_website_to_file site (\<lambda>f. True) ''https://a.test/''
                 ''discovered_urls.txt'' 50 1 0.5)))
       = [''https://a.test/'', ''https://a.test/p1'']
   \<and> distinct (entered_urls (trace (finished (scrape_website_to_file site (\<lambda>f. True)
                 ''https://a.test/'' ''discovered_urls.txt'' 50 1 0.5))))"
proof -
  let ?c = "scrape_website_to_file site (\<lambda>f. True) ''https://a.test/''
                 ''discovered_urls.txt'' 50 1 0.5"
  have h: "netloc (urlparse ''https://a.test/'') = ''a.test''" by (simp add: site_facts)
  have e: "entered_urls (trace (finished ?c)) = [''https://a.test/'', ''https://a.test/p1'']"
    unfolding site_trace_1_50 by simp
  have n: "nat 1 + 1 = 2" by simp
  note main = traversal_terminates [of 1 0 site "''a.test''" "''https://a.test/''" 50 "0.5" fresh
            "\<lambda>f. True" "''https://a.test/''" "''discovered_urls.txt''", unfolded Let_def h n]
  have le: "(0::int) \<le> 1" by simp
  from main [OF le]
  have b: "recursive_scrape_bounded 2 site ''a.test'' ''https://a.test/'' 1 0 50 0.5 fresh
       = Some (finished ?c)"
    and d: "distinct (entered_urls (trace (finished ?c)))"
    by blast+
  show ?thesis using le b d e site_bounded_1 by simp
qed

section \<open>The values a fetch uses\<close>

lemma count_attempts_from:
  "count_list (snd (attempts_from net url m dl a n)) e \<le> n"
proof (induction n arbitrary: a)
  case 0
  show ?case by simp
next
  case (Suc n)
  from Suc [of "Suc a"] show ?case
    by (auto simp: split_beta split: option.split)
qed

lemma count_get_page_content: "count_list (snd (get_page_content net url 3 1)) e \<le> 3"
  using count_attempts_from [of net url 3 1 0 "nat 3" e] by (simp add: get_page_content_def)

lemma requests_get_page_content:
  "HttpGet v t \<in> set (snd (get_page_content net u 3 1)) \<Longrightarrow> v = u \<and> t = 10"
  using events_get_page_content [of net u 3 1] by auto

lemma count_list_absent: "x \<notin> set xs \<Longrightarrow> count_list xs x = 0"
  by (simp add: count_list_0_iff)

lemma requests_built_in_emit:
  "requests_built_in r \<Longrightarrow> (\<And>v t. e \<noteq> HttpGet v t) \<Longrightarrow> requests_built_in (emit e r)"
  by (cases e) (auto simp: requests_built_in_def)

lemma requests_built_in_discover [simp]:
  "requests_built_in (discover u r) = requests_built_in r"
  by (simp add: requests_built_in_def)

lemma requests_built_in_sleep [simp]:
  "requests_built_in (sleep t r) = requests_built_in r"
  by (simp add: requests_built_in_def)

lemma requests_built_in_scrape_page:
  assumes "requests_built_in r"
  shows "requests_built_in (snd (scrape_page net u md d mp r))"
proof (cases "u \<in> visited_urls (globals r)")
  case True
  with assms show ?thesis
    by (simp add: requests_built_in_def trace_scrape_page)
next
  case False
  let ?evs = "snd (get_page_content net u 3 1)"
  have zero: "count_list (trace r) (HttpGet u 10) = 0"
    using assms False by (intro count_list_absent) (simp add: requests_built_in_def)
  have other: "count_list ?evs (HttpGet v 10) = 0" if "v \<noteq> u" for v
    using requests_get_page_content [of v 10 net u] that by (intro count_list_absent) auto
  show ?thesis
    unfolding requests_built_in_def
  proof (intro allI conjI impI)
    fix v t
    show "HttpGet v t \<notin> set (trace (snd (scrape_page net u md d mp r)))" if "t \<noteq> 10"
      using assms that False requests_get_page_content [of v t net u]
      by (auto simp: requests_built_in_def trace_scrape_page split: option.split)
    show "count_list (trace (snd (scrape_page net u md d mp r))) (HttpGet v 10) \<le> 3"
    proof (cases "v = u")
      case True
      with zero count_get_page_content [of net u "HttpGet u 10"] False show ?thesis
        by (simp add: trace_scrape_page split: option.split)
    next
      case ne: False
      with other [OF ne] assms False show ?thesis
        by (simp add: requests_built_in_def trace_scrape_page split: option.split)
    qed
    show "HttpGet v 10 \<notin> set (trace (snd (scrape_page net u md d mp r)))"
      if "v \<notin> visited_urls (globals (snd (scrape_page net u md d mp r)))"
      using assms that False requests_get_page_content [of v 10 net u]
      by (auto simp: requests_built_in_def trace_scrape_page split: option.split)
  qed
qed

lemma requests_built_in_recursive_scrape:
  "requests_built_in r \<Longrightarrow> requests_built_in (recursive_scrape net b u md d mp dl r)"
  and requests_built_in_scrape_links:
  "requests_built_in r \<Longrightarrow> requests_built_in (scrape_links net b ls md d mp dl r)"
proof (induction net b u md d mp dl r and net b ls md d mp dl r rule: crawl_induct)
  case (page net b u md d mp dl r)
  have r1: "requests_built_in (snd (scrape_page net u md d mp r))"
    by (rule requests_built_in_scrape_page [OF page.prems])
  show ?case
  proof (cases "fst (scrape_page net u md d mp r)")
    case None
    with r1 show ?thesis by (simp add: recursive_scrape_no_links)
  next
    case (Some links)
    show ?thesis
      unfolding recursive_scrape_links [OF Some] by (rule page.IH [OF Some r1])
  qed
next
  case (nil net b md d mp dl r)
  then show ?case by simp
next
  case (skip net b l ls md d mp dl r)
  show ?case
    unfolding scrape_links_skip [OF skip.hyps]
    using skip.prems by (intro skip.IH) simp
next
  case (break net b l ls md d mp dl r)
  show ?case
    unfolding scrape_links_break [OF break.hyps]
    using break.prems by (intro requests_built_in_emit) simp_all
next
  case (descend net b l ls md d mp dl r)
  show ?case
    unfolding scrape_links_descend [OF descend.hyps]
    using descend.prems by (intro descend.IH) simp
qed

lemma requests_built_in_crawl:
  "requests_built_in (finished (scrape_website_to_file net writable start_url
      output_filename mp md dl))"
  unfolding finished_crawl
  by (rule requests_built_in_recursive_scrape) (simp add: requests_built_in_def)

lemma dead_fetch:
  "get_page_content dead url 3 1
     = (None, [HttpGet url 10, Sleep 1, HttpGet url 10, Sleep 1, HttpGet url 10])"
  by (simp add: get_page_content_def dead_def numeral_3_eq_3)

lemma impatient_trace:
  "trace (finished (crawl_with dead (\<lambda>f. True) impatient))
     = [Enter ''https://a.test/'' 0, Discover ''https://a.test/'', Visit ''https://a.test/'',
        HttpGet ''https://a.test/'' 10, Sleep 1, HttpGet ''https://a.test/'' 10, Sleep 1,
        HttpGet ''https://a.test/'' 10]"
  unfolding crawl_with_def impatient_def finished_crawl
  by (simp add: recursive_scrape_no_links fst_scrape_page dead_fetch trace_scrape_page)

lemma sleeps_built_in_scrape_page:
  assumes "sleeps_built_in dl r"
  shows "sleeps_built_in dl (snd (scrape_page net u md d mp r))"
  using assms events_get_page_content [of net u 3 1]
  by (auto simp: sleeps_built_in_def trace_scrape_page split: option.splits if_splits)

lemma sleeps_built_in_recursive_scrape:
  "sleeps_built_in dl r \<Longrightarrow> sleeps_built_in dl (recursive_scrape net b u md d mp dl r)"
  and sleeps_built_in_scrape_links:
  "sleeps_built_in dl r \<Longrightarrow> sleeps_built_in dl (scrape_links net b ls md d mp dl r)"
proof (induction net b u md d mp dl r and net b ls md d mp dl r rule: crawl_induct)
  case (page net b u md d mp dl r)
  have r1: "sleeps_built_in dl (snd (scrape_page net u md d mp r))"
    by (rule sleeps_built_in_scrape_page [OF page.prems])
  show ?case
  proof (cases "fst (scrape_page net u md d mp r)")
    case None
    with r1 show ?thesis by (simp add: recursive_scrape_no_links)
  next
    case (Some links)
    show ?thesis
      unfolding recursive_scrape_links [OF Some] by (rule page.IH [OF Some r1])
  qed
next
  case (nil net b md d mp dl r)
  then show ?case by simp
next
  case (skip net b l ls md d mp dl r)
  show ?case
    unfolding scrape_links_skip [OF skip.hyps]
    using skip.prems by (intro skip.IH) (simp add: sleeps_built_in_def)
next
  case (break net b l ls md d mp dl r)
  show ?case
    unfolding scrape_links_break [OF break.hyps]
    using break.prems by (simp add: sleeps_built_in_def)
next
  case (descend net b l ls md d mp dl r)
  show ?case
    unfolding scrape_links_descend [OF descend.hyps]
    using descend.prems by (intro descend.IH) (auto simp: sleeps_built_in_def)
qed

lemma sleeps_built_in_crawl:
  "sleeps_built_in dl (finished (scrape_website_to_file net writable start_url
      output_filename mp md dl))"
  unfolding finished_crawl
  by (rule sleeps_built_in_recursive_scrape) (simp add: sleeps_built_in_def)

text \<open>
  Claim C8, as amended. Every fetch of a crawl uses the values built into the source,
  whatever the configuration: every request has the timeout \<open>10\<close>, no URL is requested
  more than \<open>3\<close> times, every sleep is the retry delay \<open>1\<close> or the politeness delay of
  the configuration; and the crawl does not depend on the fetch timeout, the number of
  retries or the retry delay of the configuration.
\<close>

theorem fetch_values_built_in:
  "(let r = finished (crawl_with net writable cfg)
    in (\<forall>u t. HttpGet u t \<in> set (trace r) \<longrightarrow> t = 10)
       \<and> (\<forall>u. count_list (trace r) (HttpGet u 10) \<le> 3)
       \<and> (\<forall>t. Sleep t \<in> set (trace r) \<longrightarrow> t = 1 \<or> t = cfg_delay cfg))
   \<and> crawl_with net writable
        (cfg\<lparr>cfg_fetch_timeout := timeout, cfg_max_fetch_retries := max_retries,
             cfg_retry_delay := retry_delay\<rparr>)
      = crawl_with net writable cfg"
proof -
  have a: "requests_built_in (finished (crawl_with net writable cfg))"
    unfolding crawl_with_def by (rule requests_built_in_crawl)
  have b: "sleeps_built_in (cfg_delay cfg) (finished (crawl_with net writable cfg))"
    unfolding crawl_with_def by (rule sleeps_built_in_crawl)
  have c: "crawl_with net writable
        (cfg\<lparr>cfg_fetch_timeout := timeout, cfg_max_fetch_retries := max_retries,
             cfg_retry_delay := retry_delay\<rparr>)
      = crawl_with net writable cfg"
    by (simp add: crawl_with_def)
  from a have a1: "\<forall>u t. HttpGet u t \<in> set (trace (finished (crawl_with net writable cfg)))
                     \<longrightarrow> t = 10"
    unfolding requests_built_in_def by blast
  from a have a2: "\<forall>u. count_list (trace (finished (crawl_with net writable cfg)))
                     (HttpGet u 10) \<le> 3"
    unfolding requests_built_in_def by blast
  from b have b1: "\<forall>t. Sleep t \<in> set (trace (finished (crawl_with net writable cfg)))
                     \<longrightarrow> t = 1 \<or> t = cfg_delay cfg"
    unfolding sleeps_built_in_def by blast
  show ?thesis unfolding Let_def using a1 a2 b1 c by blast
qed

theorem fetch_values_built_in_witness:
  "HttpGet ''https://a.test/'' 10 \<in> set (trace (finished (crawl_with dead (\<lambda>f. True) impatient)))
   \<and> count_list (trace (finished (crawl_with dead (\<lambda>f. True) impatient)))
        (HttpGet ''https://a.test/'' 10) = 3
   \<and> count_list (trace (finished (crawl_with dead (\<lambda>f. True) impatient)))
        (HttpGet ''https://a.test/'' 10) \<le> 3
   \<and> Sleep 1 \<in> set (trace (finished (crawl_with dead (\<lambda>f. True) impatient)))
   \<and> crawl_with dead (\<lambda>f. True)
        (impatient\<lparr>cfg_fetch_timeout := 30, cfg_max_fetch_retries := 5, cfg_retry_delay := 2\<rparr>)
      = crawl_with dead (\<lambda>f. True) impatient"
proof -
  have t: "HttpGet ''https://a.test/'' 10
             \<in> set (trace (finished (crawl_with dead (\<lambda>f. True) impatient)))
           \<and> count_list (trace (finished (crawl_with dead (\<lambda>f. True) impatient)))
                (HttpGet ''https://a.test/'' 10) = 3
           \<and> Sleep 1 \<in> set (trace (finished (crawl_with dead (\<lambda>f. True) impatient)))"
    unfolding impatient_trace by simp
  from fetch_values_built_in
         [where net = dead and writable = "\<lambda>f. True" and cfg = impatient and timeout = 30
            and max_retries = 5 and retry_delay = 2, unfolded Let_def] t
  show ?thesis by simp
qed

text \<open>
  Claim C8 as stated fails: a configuration that asks for one attempt per fetch, a
  timeout of 5 and a retry delay of 7 gets three requests with timeout 10, one second
  apart.
\<close>

theorem fetch_values_counterexample:
  "cfg_fetch_timeout impatient = 5 \<and> cfg_max_fetch_retries impatient = 1
   \<and> cfg_retry_delay impatient = 7
   \<and> trace (finished (crawl_with dead (\<lambda>f. True) impatient))
     = [Enter ''https://a.test/'' 0, Discover ''https://a.test/'', Visit ''https://a.test/'',
        HttpGet ''https://a.test/'' 10, Sleep 1, HttpGet ''https://a.test/'' 10, Sleep 1,
        HttpGet ''https://a.test/'' 10]"
  unfolding impatient_trace by (simp add: impatient_def)

section \<open>The links a fetch returns\<close>

lemma strip_no_fragment: "fragment p = [] \<Longrightarrow> p\<lparr>fragment := []\<rparr> = p"
  by (cases p) simp

lemma normalized_url_kept: "keep_link f \<Longrightarrow> normalized_url f = geturl (urlparse f)"
  by (simp add: keep_link_def normalized_url_def Let_def strip_no_fragment)

text \<open>
  Claim C4, as amended. An anchor whose resolved URL carries a fragment is discarded by
  the link filter, so it contributes no link (and its fragment-free form is not added to
  \<open>discovered\<close> on its account). The links a fetch returns are exactly the URLs
  \<^verbatim>\<open>geturl()\<close> gives for the resolved anchors with scheme http or https, an empty fragment
  and no \<^verbatim>\<open>mailto:\<close> prefix; a page all of whose anchors carry a fragment returns no link.
\<close>

theorem fragment_links_dropped:
  "(fragment (urlparse full_url) \<noteq> [] \<longrightarrow> \<not> keep_link full_url)
   \<and> set (extract_links full_urls)
       = (\<lambda>f. geturl (urlparse f))
           ` {f \<in> set full_urls. scheme (urlparse f) \<in> {''http'', ''https''}
                \<and> fragment (urlparse f) = [] \<and> \<not> startswith f ''mailto:''}
   \<and> ((\<forall>f \<in> set full_urls. fragment (urlparse f) \<noteq> [])
        \<longrightarrow> try_fetch (Response text_content full_urls) = Some (text_content, []))"
proof -
  have a: "fragment (urlparse full_url) \<noteq> [] \<longrightarrow> \<not> keep_link full_url"
    by (simp add: keep_link_def Let_def)
  have k: "{f \<in> set full_urls. scheme (urlparse f) \<in> {''http'', ''https''}
                \<and> fragment (urlparse f) = [] \<and> \<not> startswith f ''mailto:''}
           = {f \<in> set full_urls. keep_link f}"
    by (auto simp: keep_link_def Let_def)
  have b: "set (extract_links full_urls)
       = (\<lambda>f. geturl (urlparse f))
           ` {f \<in> set full_urls. scheme (urlparse f) \<in> {''http'', ''https''}
                \<and> fragment (urlparse f) = [] \<and> \<not> startswith f ''mailto:''}"
    unfolding k by (auto simp: extract_links_def normalized_url_kept image_iff)
  have c: "(\<forall>f \<in> set full_urls. fragment (urlparse f) \<noteq> [])
        \<longrightarrow> try_fetch (Response text_content full_urls) = Some (text_content, [])"
  proof
    assume "\<forall>f \<in> set full_urls. fragment (urlparse f) \<noteq> []"
    then have "filter keep_link full_urls = []"
      by (auto simp: filter_empty_conv keep_link_def Let_def)
    then show "try_fetch (Response text_content full_urls) = Some (text_content, [])"
      by (simp add: extract_links_def)
  qed
  show ?thesis using a b c by blast
qed

lemma anchored_parts:
  "scheme (urlparse ''https://x/page#sec'') = ''https''
   \<and> fragment (urlparse ''https://x/page#sec'') = ''sec''
   \<and> geturl ((urlparse ''https://x/page#sec'')\<lparr>fragment := []\<rparr>) = ''https://x/page''
   \<and> netloc (urlparse ''https://x/'') = ''x''"
  by code_simp

lemma other_parts:
  "scheme (urlparse ''https://x/other'') = ''https''
   \<and> fragment (urlparse ''https://x/other'') = []
   \<and> \<not> startswith ''https://x/other'' ''mailto:''
   \<and> geturl (urlparse ''https://x/other'') = ''https://x/other''"
  by code_simp

theorem fragment_links_dropped_witness:
  "fragment (urlparse ''https://x/page#sec'') \<noteq> []
   \<and> \<not> keep_link ''https://x/page#sec''
   \<and> set (extract_links [''https://x/page#sec'', ''https://x/other'']) = {''https://x/other''}
   \<and> try_fetch (Response ''contents'' [''https://x/page#sec'']) = Some (''contents'', [])"
proof -
  have f: "fragment (urlparse ''https://x/page#sec'') \<noteq> []"
    by (simp add: anchored_parts)
  have s: "{f \<in> set [''https://x/page#sec'', ''https://x/other''].
              scheme (urlparse f) \<in> {''http'', ''https''}
              \<and> fragment (urlparse f) = [] \<and> \<not> startswith f ''mailto:''}
           = {''https://x/other''}"
    using anchored_parts other_parts by auto
  from fragment_links_dropped
         [where full_url = "''https://x/page#sec''"
            and full_urls = "[''https://x/page#sec'', ''https://x/other'']"]
  have a: "\<not> keep_link ''https://x/page#sec''"
    and b: "set (extract_links [''https://x/page#sec'', ''https://x/other''])
              = {''https://x/other''}"
    unfolding s using f by (simp_all add: other_parts)
  from fragment_links_dropped
         [where full_urls = "[''https://x/page#sec'']" and text_content = "''contents''"] f
  have c: "try_fetch (Response ''contents'' [''https://x/page#sec'']) = Some (''contents'', [])"
    by simp
  show ?thesis using f a b c by simp
qed

lemma anchored_fetch:
  "get_page_content anchored ''https://x/'' 3 1
     = (Some (''contents'', []), [HttpGet ''https://x/'' 10])"
  by (rule requests_succeed_at_once)
     (simp add: anchored_def extract_links_def keep_link_def Let_def anchored_parts)

text \<open>
  Claim C4 as stated fails on its own example: a page whose only anchor resolves to
  \<^verbatim>\<open>https://x/page#sec\<close> yields no link, and \<^verbatim>\<open>https://x/page\<close> is not in \<open>discovered\<close>.
\<close>

theorem fragment_links_counterexample:
  "anchored ''https://x/'' 0 = Response ''contents'' [''https://x/page#sec'']
   \<and> scheme (urlparse ''https://x/page#sec'') = ''https''
   \<and> fragment (urlparse ''https://x/page#sec'') = ''sec''
   \<and> geturl ((urlparse ''https://x/page#sec'')\<lparr>fragment := []\<rparr>) = ''https://x/page''
   \<and> fst (get_page_content anchored ''https://x/'' 3 1) = Some (''contents'', [])
   \<and> set (discovered_urls (scrape_website_to_file anchored (\<lambda>f. True) ''https://x/''
             ''discovered_urls.txt'' 50 3 0.5)) = {''https://x/''}
   \<and> ''https://x/page'' \<notin> set (discovered_urls (scrape_website_to_file anchored (\<lambda>f. True)
             ''https://x/'' ''discovered_urls.txt'' 50 3 0.5))"
proof -
  have "finished (scrape_website_to_file anchored (\<lambda>f. True) ''https://x/''
             ''discovered_urls.txt'' 50 3 0.5)
        = snd (scrape_page anchored ''https://x/'' 3 0 50 fresh)"
    unfolding finished_crawl
    by (simp add: recursive_scrape_links fst_scrape_page anchored_fetch)
  then have d: "set (discovered_urls (scrape_website_to_file anchored (\<lambda>f. True) ''https://x/''
             ''discovered_urls.txt'' 50 3 0.5)) = {''https://x/''}"
    unfolding set_discovered_urls_crawl by simp
  show ?thesis
    unfolding d by (simp add: anchored_def anchored_parts anchored_fetch)
qed

section \<open>The inventory\<close>

lemma universal_newlines_plain:
  "carriage_return \<notin> set s \<Longrightarrow> universal_newlines s = s"
  by (induction s rule: universal_newlines.induct) auto

lemma lines_from_line:
  "newline \<notin> set u \<Longrightarrow>
   lines_from cur (u @ newline # rest) = (cur @ u @ [newline]) # lines_from [] rest"
  by (induction u arbitrary: cur) auto

lemma lines_from_inventory:
  "(\<forall>url \<in> set urls. newline \<notin> set url) \<Longrightarrow>
   lines_from [] (inventory_text urls) = map (\<lambda>url. url @ [newline]) urls"
proof (induction urls)
  case Nil
  show ?case by (simp add: inventory_text_def)
next
  case (Cons u urls)
  then have n: "newline \<notin> set u" by simp
  have "lines_from [] (inventory_text (u # urls))
          = lines_from [] (u @ newline # inventory_text urls)"
    by (simp add: inventory_text_def)
  also have "\<dots> = (u @ [newline]) # lines_from [] (inventory_text urls)"
    using lines_from_line [OF n, of "[]"] by simp
  finally show ?case using Cons by simp
qed

lemma set_inventory_text:
  "set (inventory_text urls) = (\<Union>url \<in> set urls. insert newline (set url))"
  by (induction urls) (auto simp: inventory_text_def)

lemma isspace_newline: "isspace newline"
  by (simp add: isspace_def newline_def)

lemma strip_line:
  assumes "u \<noteq> []" "\<not> isspace (hd u)" "\<not> isspace (last u)"
  shows "strip (u @ [newline]) = u"
proof -
  have a: "dropWhile isspace (u @ [newline]) = u @ [newline]"
    using assms(1,2) by (cases u) simp_all
  have b: "dropWhile isspace (rev u) = rev u"
    using assms(1,3) by (cases "rev u") (simp_all add: last_rev [symmetric] hd_rev)
  show ?thesis
    unfolding strip_def a by (simp add: isspace_newline b)
qed

lemma urls_to_download_inventory:
  assumes "\<forall>url \<in> set urls. line_safe url"
  shows "urls_to_download (inventory_text urls) = urls"
proof -
  have cr: "carriage_return \<notin> set (inventory_text urls)"
    using assms
    by (auto simp: set_inventory_text line_safe_def carriage_return_def newline_def)
  have nl: "\<forall>url \<in> set urls. newline \<notin> set url"
    using assms by (simp add: line_safe_def)
  have st: "map strip (map (\<lambda>url. url @ [newline]) urls) = urls"
    using assms by (induction urls) (simp_all add: strip_line line_safe_def)
  have ne: "filter (\<lambda>line. line \<noteq> []) urls = urls"
    using assms by (induction urls) (simp_all add: line_safe_def)
  show ?thesis
    unfolding urls_to_download_def universal_newlines_plain [OF cr]
      lines_from_inventory [OF nl] st
    by (rule ne)
qed

lemma results_crawl:
  "written (scrape_website_to_file net writable start_url output_filename mp md dl)
     = (if writable output_filename
        then Some (inventory_text (discovered_urls
               (scrape_website_to_file net writable start_url output_filename mp md dl)))
        else None)"
  "io_error_reported (scrape_website_to_file net writable start_url output_filename mp md dl)
     = (\<not> writable output_filename)"
  by (simp_all add: scrape_website_to_file_def Let_def)

lemma returned_independent_of_disk:
  "extracted_content (scrape_website_to_file net writable' start_url output_filename mp md dl)
     = extracted_content (scrape_website_to_file net writable start_url output_filename mp md dl)"
  "discovered_urls (scrape_website_to_file net writable' start_url output_filename mp md dl)
     = discovered_urls (scrape_website_to_file net writable start_url output_filename mp md dl)"
  by (simp_all add: scrape_website_to_file_def Let_def)

text \<open>
  Claim C6, as amended. Take a crawl that no exception leaves: its history has no event
  at which \<^verbatim>\<open>urlparse\<close> or \<^verbatim>\<open>time.sleep\<close> may raise, and the name of the destination has no
  NUL character. The list of discovered URLs it returns is the discovered set, sorted and
  without duplicates. When the destination can be written, the file holds each URL of
  that list followed by a line feed, and no error is reported. Read back by the
  repository's reader (text mode, each line stripped, empty lines dropped), the file gives
  the list again, provided every discovered URL is one line that stripping leaves alone:
  not empty, without line feed or carriage return, without whitespace at either end. When
  the write fails with an \<^verbatim>\<open>IOError\<close> the error is reported, and the extracted content and
  the sorted list returned are the same as when it succeeds: the in-memory results.
\<close>

theorem inventory_written_sorted:
  assumes "uninterrupted (history (finished
             (scrape_website_to_file net writable start_url output_filename
                max_pages_to_visit max_depth politeness_delay)))"
    and "\<not> open_raises_value_error output_filename"
  shows "(let c = scrape_website_to_file net writable start_url output_filename
              max_pages_to_visit max_depth politeness_delay;
        c' = scrape_website_to_file net writable' start_url output_filename
              max_pages_to_visit max_depth politeness_delay
    in set (discovered_urls c) = all_discovered_urls (globals (finished c))
       \<and> sorted (discovered_urls c) \<and> distinct (discovered_urls c)
       \<and> (writable output_filename \<longrightarrow>
            written c = Some (inventory_text (discovered_urls c)) \<and> \<not> io_error_reported c)
       \<and> ((\<forall>url \<in> set (discovered_urls c). line_safe url) \<longrightarrow>
            urls_to_download (inventory_text (discovered_urls c)) = discovered_urls c)
       \<and> (\<not> writable output_filename \<longrightarrow> io_error_reported c)
       \<and> extracted_content c = all_extracted_content (globals (finished c))
       \<and> extracted_content c' = extracted_content c
       \<and> discovered_urls c' = discovered_urls c)"
  unfolding Let_def
  using set_discovered_urls_crawl [of net writable start_url output_filename
          max_pages_to_visit max_depth politeness_delay]
        urls_to_download_inventory [of "discovered_urls (scrape_website_to_file net writable
          start_url output_filename max_pages_to_visit max_depth politeness_delay)"]
        returned_independent_of_disk [of net writable' start_url output_filename
          max_pages_to_visit max_depth politeness_delay writable]
  by (simp add: results_crawl extracted_content_crawl discovered_urls_crawl)

lemma site_sorted:
  "sorted [''https://a.test/'', ''https://a.test/f.pdf'', ''https://a.test/p1'',
           ''https://ext.test/x'']"
  by code_simp

lemma site_discovered_1_50:
  "discovered_urls (scrape_website_to_file site (\<lambda>f. True) ''https://a.test/''
       ''discovered_urls.txt'' 50 1 0.5)
     = [''https://a.test/'', ''https://a.test/f.pdf'', ''https://a.test/p1'',
        ''https://ext.test/x'']"
proof (rule sorted_distinct_set_unique)
  let ?c = "scrape_website_to_file site (\<lambda>f. True) ''https://a.test/''
       ''discovered_urls.txt'' 50 1 0.5"
  show "sorted (discovered_urls ?c)" "distinct (discovered_urls ?c)"
    by (simp_all add: discovered_urls_crawl)
  show "sorted [''https://a.test/'', ''https://a.test/f.pdf'', ''https://a.test/p1'',
        ''https://ext.test/x'']" by (rule site_sorted)
  show "distinct [''https://a.test/'', ''https://a.test/f.pdf'', ''https://a.test/p1'',
        ''https://ext.test/x'']" by simp
  show "set (discovered_urls ?c) = set [''https://a.test/'', ''https://a.test/f.pdf'',
        ''https://a.test/p1'', ''https://ext.test/x'']"
    unfolding set_discovered_urls_crawl site_crawl_1_50 by auto
qed

lemma site_extracted_1_50:
  "extracted_content (scrape_website_to_file site (\<lambda>f. True) ''https://a.test/''
       ''discovered_urls.txt'' 50 1 0.5)
     = [(''https://a.test/'', ''home''), (''https://a.test/p1'', ''page one'')]"
  unfolding extracted_content_crawl site_crawl_1_50
  by (simp add: extracted_scrape_page site_facts should_scrape_content_def)

lemma site_line_safe:
  "line_safe ''https://a.test/'' \<and> line_safe ''https://a.test/f.pdf''
   \<and> line_safe ''https://a.test/p1'' \<and> line_safe ''https://ext.test/x''"
  by code_simp

theorem inventory_written_sorted_witness:
  "uninterrupted (history (finished (scrape_website_to_file site (\<lambda>f. True) ''https://a.test/''
       ''discovered_urls.txt'' 50 1 0.5)))
   \<and> uninterrupted (history (finished (scrape_website_to_file site (\<lambda>f. False)
       ''https://a.test/'' ''discovered_urls.txt'' 50 1 0.5)))
   \<and> \<not> open_raises_value_error ''discovered_urls.txt''
   \<and> discovered_urls (scrape_website_to_file site (\<lambda>f. True) ''https://a.test/''
       ''discovered_urls.txt'' 50 1 0.5)
     = [''https://a.test/'', ''https://a.test/f.pdf'', ''https://a.test/p1'',
        ''https://ext.test/x'']
   \<and> line_safe ''https://a.test/'' \<and> line_safe ''https://a.test/f.pdf''
   \<and> line_safe ''https://a.test/p1'' \<and> line_safe ''https://ext.test/x''
   \<and> written (scrape_website_to_file site (\<lambda>f. True) ''https://a.test/''
       ''discovered_urls.txt'' 50 1 0.5)
     = Some (inventory_text [''https://a.test/'', ''https://a.test/f.pdf'',
               ''https://a.test/p1'', ''https://ext.test/x''])
   \<and> urls_to_download (inventory_text [''https://a.test/'', ''https://a.test/f.pdf'',
         ''https://a.test/p1'', ''https://ext.test/x''])
     = [''https://a.test/'', ''https://a.test/f.pdf'', ''https://a.test/p1'',
        ''https://ext.test/x'']
   \<and> io_error_reported (scrape_website_to_file site (\<lambda>f. False) ''https://a.test/''
       ''discovered_urls.txt'' 50 1 0.5)
   \<and> discovered_urls (scrape_website_to_file site (\<lambda>f. False) ''https://a.test/''
       ''discovered_urls.txt'' 50 1 0.5)
     = [''https://a.test/'', ''https://a.test/f.pdf'', ''https://a.test/p1'',
        ''https://ext.test/x'']
   \<and> extracted_content (scrape_website_to_file site (\<lambda>f. False) ''https://a.test/''
       ''discovered_urls.txt'' 50 1 0.5)
     = [(''https://a.test/'', ''home''), (''https://a.test/p1'', ''page one'')]"
proof -
  have o: "\<not> open_raises_value_error ''discovered_urls.txt''"
    by (simp add: open_raises_value_error_def)
  note ok = inventory_written_sorted
         [where net = site and writable = "\<lambda>f. True" and writable' = "\<lambda>f. False"
            and start_url = "''https://a.test/''" and output_filename = "''discovered_urls.txt''"
            and max_pages_to_visit = 50 and max_depth = 1 and politeness_delay = "0.5",
          OF site_uninterrupted_1_50 o, unfolded Let_def]
  note failed = inventory_written_sorted
         [where net = site and writable = "\<lambda>f. False" and writable' = "\<lambda>f. False"
            and start_url = "''https://a.test/''" and output_filename = "''discovered_urls.txt''"
            and max_pages_to_visit = 50 and max_depth = 1 and politeness_delay = "0.5",
          OF site_uninterrupted_1_50 o, unfolded Let_def]
  from failed have e: "io_error_reported (scrape_website_to_file site (\<lambda>f. False)
          ''https://a.test/'' ''discovered_urls.txt'' 50 1 0.5)"
    by simp
  from ok site_line_safe e o site_uninterrupted_1_50 [of "\<lambda>f. True"]
       site_uninterrupted_1_50 [of "\<lambda>f. False"]
  show ?thesis
    unfolding site_discovered_1_50 site_extracted_1_50 by simp
qed

lemma dead_crawl:
  "finished (scrape_website_to_file dead writable start_url output_filename mp md dl)
     = snd (scrape_page dead start_url md 0 mp fresh)"
  unfolding finished_crawl
  by (simp add: recursive_scrape_no_links fst_scrape_page dead_fetch)

lemma dead_discovered:
  "discovered_urls (scrape_website_to_file dead writable start_url output_filename mp md dl)
     = [start_url]"
  unfolding discovered_urls_crawl dead_crawl by simp

lemma dead_uninterrupted:
  "\<not> urlparse_may_raise start_url \<Longrightarrow>
   uninterrupted (history (finished
     (scrape_website_to_file dead writable start_url output_filename mp md dl)))"
  unfolding uninterrupted_trace dead_crawl
  by (simp add: trace_scrape_page dead_fetch sleep_may_raise_def nesting_may_raise_def)

text \<open>
  Claim C6 as stated fails for a discovered URL that is not one clean line. A crawl whose
  start URL has a line feed or a carriage return inside completes, and the file has two
  lines for the one discovered URL; with a space at the end of the start URL the line is
  read back without it. In each case reading the file back does not give the discovered
  list.
\<close>

theorem inventory_counterexample:
  "uninterrupted (history (finished (scrape_website_to_file dead (\<lambda>f. True) broken_url
       ''discovered_urls.txt'' 50 3 0.5)))
   \<and> \<not> open_raises_value_error ''discovered_urls.txt''
   \<and> discovered_urls (scrape_website_to_file dead (\<lambda>f. True) broken_url
       ''discovered_urls.txt'' 50 3 0.5) = [broken_url]
   \<and> written (scrape_website_to_file dead (\<lambda>f. True) broken_url
       ''discovered_urls.txt'' 50 3 0.5) = Some (inventory_text [broken_url])
   \<and> urls_to_download (inventory_text [broken_url]) = [''https://a.test/'', ''x'']
   \<and> urls_to_download (inventory_text [broken_url]) \<noteq> [broken_url]
   \<and> uninterrupted (history (finished (scrape_website_to_file dead (\<lambda>f. True) returning_url
       ''discovered_urls.txt'' 50 3 0.5)))
   \<and> discovered_urls (scrape_website_to_file dead (\<lambda>f. True) returning_url
       ''discovered_urls.txt'' 50 3 0.5) = [returning_url]
   \<and> urls_to_download (inventory_text [returning_url]) = [''https://a.test/'', ''x'']
   \<and> urls_to_download (inventory_text [returning_url]) \<noteq> [returning_url]
   \<and> uninterrupted (history (finished (scrape_website_to_file dead (\<lambda>f. True) spaced_url
       ''discovered_urls.txt'' 50 3 0.5)))
   \<and> discovered_urls (scrape_website_to_file dead (\<lambda>f. True) spaced_url
       ''discovered_urls.txt'' 50 3 0.5) = [spaced_url]
   \<and> urls_to_download (inventory_text [spaced_url]) = [''https://a.test/x'']
   \<and> urls_to_download (inventory_text [spaced_url]) \<noteq> [spaced_url]"
proof -
  have p: "\<not> urlparse_may_raise broken_url" "\<not> urlparse_may_raise returning_url"
    "\<not> urlparse_may_raise spaced_url"
    by code_simp+
  have r: "urls_to_download (inventory_text [broken_url]) = [''https://a.test/'', ''x'']"
    "urls_to_download (inventory_text [returning_url]) = [''https://a.test/'', ''x'']"
    "urls_to_download (inventory_text [spaced_url]) = [''https://a.test/x'']"
    by code_simp+
  have n: "[''https://a.test/'', ''x''] \<noteq> [broken_url]"
    "[''https://a.test/'', ''x''] \<noteq> [returning_url]"
    "[''https://a.test/x''] \<noteq> [spaced_url]"
    by (simp_all add: broken_url_def returning_url_def spaced_url_def)
  show ?thesis
    unfolding results_crawl dead_discovered r
    using p n by (simp add: dead_uninterrupted open_raises_value_error_def)
qed

lemma length_history: "length (history r) = length (trace r)"
  by (simp add: trace_def)

theorem crawl_state_invariant_witness:
  "globals (finished (scrape_website_to_file site (\<lambda>f. True) ''https://a.test/''
       ''discovered_urls.txt'' 1 3 0.5))
     \<in> set (states_during (finished (scrape_website_to_file site (\<lambda>f. True)
              ''https://a.test/'' ''discovered_urls.txt'' 1 3 0.5)))
   \<and> visited_urls (globals (finished (scrape_website_to_file site (\<lambda>f. True)
         ''https://a.test/'' ''discovered_urls.txt'' 1 3 0.5)))
       \<subseteq> all_discovered_urls (globals (finished (scrape_website_to_file site (\<lambda>f. True)
            ''https://a.test/'' ''discovered_urls.txt'' 1 3 0.5)))
   \<and> int (length (all_extracted_content (globals (finished (scrape_website_to_file site
         (\<lambda>f. True) ''https://a.test/'' ''discovered_urls.txt'' 1 3 0.5))))) \<le> max 0 1
   \<and> distinct (map fst (all_extracted_content (globals (finished (scrape_website_to_file site
         (\<lambda>f. True) ''https://a.test/'' ''discovered_urls.txt'' 1 3 0.5)))))
   \<and> all_extracted_content (globals (finished
        (scrape_website_to_file site (\<lambda>f. True) ''https://a.test/'' ''discovered_urls.txt''
           1 3 0.5))) = [(''https://a.test/'', ''home'')]
   \<and> length (states_during (finished
        (scrape_website_to_file site (\<lambda>f. True) ''https://a.test/'' ''discovered_urls.txt''
           1 3 0.5))) = 8"
proof -
  let ?r = "finished (scrape_website_to_file site (\<lambda>f. True) ''https://a.test/''
              ''discovered_urls.txt'' 1 3 0.5)"
  have m: "globals ?r \<in> set (states_during ?r)"
    by (simp add: states_during_def)
  have a: "all_extracted_content (globals ?r) = [(''https://a.test/'', ''home'')]"
    unfolding site_crawl_3_1
    by (simp add: extracted_scrape_page site_facts should_scrape_content_def)
  have b: "length (states_during ?r) = 8"
    unfolding states_during_def site_crawl_3_1
    by (simp add: length_history trace_scrape_page site_facts should_scrape_content_def)
  from crawl_state_invariant [of site "\<lambda>f. True" "''https://a.test/''"
         "''discovered_urls.txt''" 1 3 "0.5", THEN bspec, OF m]
  have i: "visited_urls (globals ?r) \<subseteq> all_discovered_urls (globals ?r)
           \<and> int (length (all_extracted_content (globals ?r))) \<le> max 0 1
           \<and> distinct (map fst (all_extracted_content (globals ?r)))" .
  show ?thesis using m a b i by blast
qed

text \<open>
  Claim C1 as stated fails for a negative page limit: the content list is empty
  throughout, and its length, zero, is not at most the limit.
\<close>

theorem crawl_state_invariant_counterexample:
  "globals (finished (scrape_website_to_file dead (\<lambda>f. True) ''https://a.test/''
       ''discovered_urls.txt'' (- 1) 3 0.5))
     \<in> set (states_during (finished (scrape_website_to_file dead (\<lambda>f. True) ''https://a.test/''
              ''discovered_urls.txt'' (- 1) 3 0.5)))
   \<and> all_extracted_content (globals (finished (scrape_website_to_file dead (\<lambda>f. True)
         ''https://a.test/'' ''discovered_urls.txt'' (- 1) 3 0.5))) = []
   \<and> \<not> int (length (all_extracted_content (globals (finished (scrape_website_to_file dead
             (\<lambda>f. True) ''https://a.test/'' ''discovered_urls.txt'' (- 1) 3 0.5)))))
         \<le> - 1"
proof -
  have "finished (scrape_website_to_file dead (\<lambda>f. True) ''https://a.test/''
          ''discovered_urls.txt'' (- 1) 3 0.5)
        = snd (scrape_page dead ''https://a.test/'' 3 0 (- 1) fresh)"
    unfolding finished_crawl
    by (simp add: recursive_scrape_no_links fst_scrape_page dead_fetch)
  then show ?thesis
    by (simp add: states_during_def extracted_scrape_page dead_fetch)
qed



end
